theory Spec2Isabelle
  imports Main "HOL-Library.Char_ord"
begin

section \<open>Strings as the parser sees them\<close>

text \<open>
  A Python \<open>str\<close> is modelled as a \<open>string\<close>, one \<open>char\<close> per code point, for the
  code points below 256. Every index, length and column of the source counts code
  points, and so does \<open>length\<close> here.
\<close>

definition in_range :: "char \<Rightarrow> char \<Rightarrow> char \<Rightarrow> bool" where
  \<comment> \<open>a character range \<open>lo-hi\<close> of a regular expression class, by code point\<close>
  "in_range lo hi c \<longleftrightarrow> lo \<le> c \<and> c \<le> hi"

definition is_space :: "char \<Rightarrow> bool" where
  \<comment> \<open>\<open>str.isspace\<close> and the regular expression class \<open>\s\<close> on code points below 256:
      U+0009 to U+000D, U+001C to U+0020, U+0085 and U+00A0\<close>
  "is_space c \<longleftrightarrow> in_range (CHR 0x09) (CHR 0x0D) c \<or> in_range (CHR 0x1C) (CHR 0x20) c
     \<or> c = CHR 0x85 \<or> c = CHR 0xA0"

definition is_upper :: "char \<Rightarrow> bool" where
  \<comment> \<open>the class \<open>[A-Z]\<close>\<close>
  "is_upper c \<longleftrightarrow> in_range CHR ''A'' CHR ''Z'' c"

definition is_digit :: "char \<Rightarrow> bool" where
  \<comment> \<open>the class \<open>\d\<close> on code points below 256\<close>
  "is_digit c \<longleftrightarrow> in_range CHR ''0'' CHR ''9'' c"

definition is_ident :: "char \<Rightarrow> bool" where
  \<comment> \<open>the class \<open>[A-Za-z0-9_-]\<close>\<close>
  "is_ident c \<longleftrightarrow> in_range CHR ''A'' CHR ''Z'' c \<or> in_range CHR ''a'' CHR ''z'' c
     \<or> in_range CHR ''0'' CHR ''9'' c \<or> c = CHR ''_'' \<or> c = CHR ''-''"

definition lstrip :: "string \<Rightarrow> string" where
  "lstrip s = dropWhile is_space s"

definition rstrip :: "string \<Rightarrow> string" where
  "rstrip s = rev (dropWhile is_space (rev s))"

definition strip :: "string \<Rightarrow> string" where
  "strip s = rstrip (lstrip s)"

definition lstrip_sp :: "string \<Rightarrow> string" where
  \<comment> \<open>\<open>s.lstrip(" ")\<close>\<close>
  "lstrip_sp s = dropWhile (\<lambda>c. c = CHR '' '') s"

definition slice :: "string \<Rightarrow> nat \<Rightarrow> nat \<Rightarrow> string" where
  \<comment> \<open>\<open>s[a:b]\<close> for non-negative \<open>a\<close> and \<open>b\<close>\<close>
  "slice s a b = take (b - a) (drop a s)"

fun starts_with :: "string \<Rightarrow> string \<Rightarrow> bool" where
  \<comment> \<open>\<open>starts_with p s\<close> is \<open>s.startswith(p)\<close>\<close>
  "starts_with [] s = True"
| "starts_with (p # ps) [] = False"
| "starts_with (p # ps) (c # cs) = (p = c \<and> starts_with ps cs)"

fun find_sub :: "string \<Rightarrow> string \<Rightarrow> nat \<Rightarrow> nat option" where
  \<comment> \<open>the index of the first occurrence of \<open>p\<close>, counted from \<open>i\<close> at the head of the suffix\<close>
  "find_sub p [] i = (if p = [] then Some i else None)"
| "find_sub p (c # cs) i = (if starts_with p (c # cs) then Some i else find_sub p cs (Suc i))"

fun split_on :: "char \<Rightarrow> string \<Rightarrow> string list" where
  \<comment> \<open>\<open>s.split(c)\<close> for a one-character separator\<close>
  "split_on c [] = [[]]"
| "split_on c (x # xs) =
     (if x = c then [] # split_on c xs
      else (case split_on c xs of [] \<Rightarrow> [[x]] | y # ys \<Rightarrow> (x # y) # ys))"

fun join_sp :: "string list \<Rightarrow> string" where
  \<comment> \<open>\<open>" ".join(xs)\<close>\<close>
  "join_sp [] = []"
| "join_sp [x] = x"
| "join_sp (x # y # ys) = x @ CHR '' '' # join_sp (y # ys)"

section \<open>Locations and inline nodes\<close>

datatype position = Position (pos_line: nat) (pos_column: nat)

datatype loc = Loc (loc_start: position) (loc_end: position)

definition make_loc :: "nat \<Rightarrow> nat \<Rightarrow> nat option \<Rightarrow> nat option \<Rightarrow> loc" where
  "make_loc start_line start_col end_line end_col =
     Loc (Position start_line start_col)
         (Position (case end_line of None \<Rightarrow> start_line | Some e \<Rightarrow> e)
                   (case end_col of None \<Rightarrow> start_col | Some e \<Rightarrow> e))"

datatype inline
  = Text string loc
  | InlineCode string loc
  | InlineLabel string "string option" loc
  | InlineComment string loc

section \<open>Inline lexer\<close>

subsection \<open>Label extraction\<close>

definition label_match_at :: "string \<Rightarrow> nat option" where
  \<comment> \<open>\<open>LABEL_RE\<close>, \<open>([A-Za-z0-9_-]+):\<close>, matched at the head of the string: the length
      of the match, colon included. The greedy run is followed by a colon or the match
      fails, since a shorter run is followed by an identifier character.\<close>
  "label_match_at s =
     (let run = takeWhile is_ident s in
      if run \<noteq> [] \<and> starts_with '':'' (dropWhile is_ident s)
      then Some (length run + 1) else None)"

fun label_search_from :: "string \<Rightarrow> nat \<Rightarrow> (nat \<times> nat) option" where
  \<comment> \<open>leftmost match in the suffix whose head has index \<open>i\<close>: (match.start(), match.end())\<close>
  "label_search_from [] i = None"
| "label_search_from (c # s) i =
     (case label_match_at (c # s) of
        Some m \<Rightarrow> Some (i, i + m)
      | None \<Rightarrow> label_search_from s (Suc i))"

definition label_search :: "string \<Rightarrow> nat \<Rightarrow> (nat \<times> nat) option" where
  \<comment> \<open>\<open>LABEL_RE.search(text, pos)\<close>\<close>
  "label_search text pos = label_search_from (drop pos text) pos"

lemma label_search_from_bounds:
  "label_search_from s i = Some (ms, me) \<Longrightarrow> i \<le> ms \<and> ms < me \<and> me \<le> i + length s"
proof (induction s arbitrary: i)
  case Nil
  then show ?case by simp
next
  case (Cons c s)
  show ?case
  proof (cases "label_match_at (c # s)")
    case None
    with Cons.prems have "label_search_from s (Suc i) = Some (ms, me)" by simp
    from Cons.IH [OF this] show ?thesis by simp
  next
    case (Some m)
    with Cons.prems have eq: "ms = i" "me = i + m" by simp_all
    from Some have m: "m = length (takeWhile is_ident (c # s)) + 1"
      and colon: "starts_with '':'' (dropWhile is_ident (c # s))"
      by (auto simp: label_match_at_def Let_def split: if_splits)
    from colon have "dropWhile is_ident (c # s) \<noteq> []"
      by (cases "dropWhile is_ident (c # s)") simp_all
    then have "0 < length (dropWhile is_ident (c # s))" by simp
    moreover have "length (takeWhile is_ident (c # s)) + length (dropWhile is_ident (c # s))
        = length (c # s)"
      by (metis length_append takeWhile_dropWhile_id)
    ultimately have "length (takeWhile is_ident (c # s)) < length (c # s)" by linarith
    with m eq show ?thesis by simp
  qed
qed

lemma label_search_bounds:
  assumes "label_search text pos = Some (ms, me)"
  shows "pos \<le> ms" and "ms < me" and "me \<le> length text"
proof -
  from assms have b: "pos \<le> ms \<and> ms < me \<and> me \<le> pos + length (drop pos text)"
    unfolding label_search_def by (rule label_search_from_bounds)
  then show "pos \<le> ms" and "ms < me" by simp_all
  from b have "pos < pos + length (drop pos text)" by linarith
  then have "pos < length text" by simp
  with b show "me \<le> length text" by simp
qed

lemma label_next_bounds:
  assumes "label_search text pos = Some (m_start, m_end)"
  shows "pos < (case label_search text m_end of Some (n_start, n_end) \<Rightarrow> n_start | None \<Rightarrow> length text)"
    and "(case label_search text m_end of Some (n_start, n_end) \<Rightarrow> n_start | None \<Rightarrow> length text)
           \<le> length text"
proof -
  note b = label_search_bounds [OF assms]
  show "pos < (case label_search text m_end of Some (n_start, n_end) \<Rightarrow> n_start | None \<Rightarrow> length text)"
  proof (cases "label_search text m_end")
    case None
    with b show ?thesis by simp
  next
    case (Some p)
    obtain ns ne where p: "p = (ns, ne)" by (cases p)
    from Some p label_search_bounds(1) [of _ m_end ns ne] have "m_end \<le> ns" by simp
    with b Some p show ?thesis by simp
  qed
  show "(case label_search text m_end of Some (n_start, n_end) \<Rightarrow> n_start | None \<Rightarrow> length text)
           \<le> length text"
  proof (cases "label_search text m_end")
    case None
    then show ?thesis by simp
  next
    case (Some p)
    obtain ns ne where p: "p = (ns, ne)" by (cases p)
    from Some p label_search_bounds [of _ m_end ns ne] have "ns < ne" "ne \<le> length text"
      by simp_all
    with Some p show ?thesis by simp
  qed
qed

function parse_labels_loop :: "string \<Rightarrow> inline list \<Rightarrow> nat \<Rightarrow> nat \<Rightarrow> nat \<Rightarrow> inline list" where
  "parse_labels_loop text out line_no base_col pos =
     (case label_search text pos of
        None \<Rightarrow>
          (let remaining = drop pos text in
           if remaining \<noteq> []
           then out @ [Text remaining
                   (make_loc line_no (base_col + pos) (Some line_no) (Some (base_col + length text)))]
           else out)
      | Some (m_start, m_end) \<Rightarrow>
          (let out1 = (if m_start > pos
                       then out @ [Text (slice text pos m_start)
                               (make_loc line_no (base_col + pos) (Some line_no) (Some (base_col + m_start)))]
                       else out);
               identifier = slice text m_start (m_end - 1);
               end_pos = (case label_search text m_end of
                        Some (n_start, n_end) \<Rightarrow> n_start
                      | None \<Rightarrow> length text);
               trailing = slice text m_end end_pos;
               label_end_col = base_col + end_pos
           in parse_labels_loop text
                (out1 @ [InlineLabel identifier (if trailing \<noteq> [] then Some trailing else None)
                   (make_loc line_no (base_col + m_start) (Some line_no) (Some label_end_col))])
                line_no base_col end_pos))"
  by pat_completeness auto
termination
  apply (relation "measure (\<lambda>(text, out, line_no, base_col, pos). length text - pos)")
   apply simp
  subgoal for t out line_no base_col pos x2 x y
    using label_next_bounds [of t pos x y] by auto
  done

declare parse_labels_loop.simps [simp del]

definition parse_labels_into :: "string \<Rightarrow> inline list \<Rightarrow> nat \<Rightarrow> nat \<Rightarrow> inline list" where
  "parse_labels_into text out line_no base_col = parse_labels_loop text out line_no base_col 0"

subsection \<open>Code spans\<close>

fun scan_inline ::
  "string \<Rightarrow> nat \<Rightarrow> nat \<Rightarrow> string \<Rightarrow> nat \<Rightarrow> inline list \<Rightarrow> bool \<Rightarrow> nat \<Rightarrow> nat
     \<Rightarrow> inline list \<times> bool \<times> nat \<times> nat" where
  \<comment> \<open>the \<open>while i < len(text)\<close> loop of \<open>parse_inline_without_comment\<close>; the fourth
      argument is \<open>text[i:]\<close>, whose head is \<open>ch\<close>\<close>
  "scan_inline text line_no start_col [] i result in_code code_start plain_start =
     (result, in_code, code_start, plain_start)"
| "scan_inline text line_no start_col (ch # rest) i result in_code code_start plain_start =
     (if ch = CHR 0x60 then
        (if in_code then
           scan_inline text line_no start_col rest (i + 1)
             (result @ [InlineCode (slice text code_start i)
                (make_loc line_no (start_col + code_start) (Some line_no) (Some (start_col + i)))])
             False code_start (i + 1)
         else
           scan_inline text line_no start_col rest (i + 1)
             (if plain_start < i
              then parse_labels_into (slice text plain_start i) result line_no (start_col + plain_start)
              else result)
             True (i + 1) plain_start)
      else scan_inline text line_no start_col rest (i + 1) result in_code code_start plain_start)"

definition parse_inline_without_comment :: "string \<Rightarrow> nat \<Rightarrow> nat \<Rightarrow> inline list" where
  "parse_inline_without_comment text line_no start_col =
     (case scan_inline text line_no start_col text 0 [] False 0 0 of
        (result, in_code, code_start, plain_start0) \<Rightarrow>
          (let plain_start = (if in_code then code_start - 1 else plain_start0) in
           if plain_start < length text
           then parse_labels_into (drop plain_start text) result line_no (start_col + plain_start)
           else result))"

subsection \<open>Inline comments\<close>

fun find_comment :: "bool \<Rightarrow> bool \<Rightarrow> string \<Rightarrow> nat \<Rightarrow> nat option" where
  \<comment> \<open>the \<open>for idx, ch in enumerate(text)\<close> loop of \<open>parse_inline\<close>: \<open>comment_pos\<close>\<close>
  "find_comment allow in_code [] idx = None"
| "find_comment allow in_code (ch # rest) idx =
     (let in_code1 = (if ch = CHR 0x60 then \<not> in_code else in_code) in
      if allow \<and> \<not> in_code1 \<and> starts_with ''i#'' (ch # rest) then Some idx
      else find_comment allow in_code1 rest (idx + 1))"

definition parse_inline :: "string \<Rightarrow> bool \<Rightarrow> nat \<Rightarrow> nat \<Rightarrow> inline list" where
  "parse_inline text allow_inline_comment line_no start_col =
     (case find_comment allow_inline_comment False text 0 of
        Some comment_pos \<Rightarrow>
          parse_inline_without_comment (take comment_pos text) line_no start_col
            @ [InlineComment (lstrip (drop (comment_pos + 2) text))
                 (make_loc line_no (start_col + comment_pos) (Some line_no)
                    (Some (start_col + length text)))]
      | None \<Rightarrow> parse_inline_without_comment text line_no start_col)"

section \<open>Line grammars\<close>

text \<open>
  Each compiled pattern of the source is a function from a line to its groups. A pattern
  is anchored at the start of the line by \<open>match\<close>; \<open>.\<close> matches any character but the
  newline U+000A; \<open>$\<close> matches at the end of the line and before a newline that ends it.
\<close>

definition not_newline :: "char \<Rightarrow> bool" where
  "not_newline c \<longleftrightarrow> c \<noteq> CHR 0x0A"

definition dot_star_end :: "string \<Rightarrow> string option" where
  \<comment> \<open>\<open>(.*)$\<close> on the rest of a line: the group\<close>
  "dot_star_end r =
     (let t = dropWhile not_newline r in
      if t = [] \<or> t = [CHR 0x0A] then Some (takeWhile not_newline r) else None)"

definition dot_plus_end :: "string \<Rightarrow> string option" where
  \<comment> \<open>\<open>(.+)$\<close> on the rest of a line: the group\<close>
  "dot_plus_end r =
     (case dot_star_end r of Some g \<Rightarrow> (if g \<noteq> [] then Some g else None) | None \<Rightarrow> None)"

definition words_of :: "(char \<Rightarrow> bool) \<Rightarrow> char \<Rightarrow> string \<Rightarrow> bool" where
  \<comment> \<open>a full match of \<open>W+(?:sW+)*\<close> for a character class \<open>W\<close> and a separator \<open>s\<close>
      outside the class\<close>
  "words_of cls sep s \<longleftrightarrow> list_all (\<lambda>w. w \<noteq> [] \<and> list_all cls w) (split_on sep s)"

definition header_match :: "string \<Rightarrow> (string \<times> string) option" where
  \<comment> \<open>\<open>HEADER_RE\<close>, \<open>^([A-Z]+(?: [A-Z]+)*)\: (.+)$\<close>: groups 1 and 2. Group 1 is the
      longest prefix of capitals and spaces, since a colon follows it.\<close>
  "header_match s =
     (let tag = takeWhile (\<lambda>c. is_upper c \<or> c = CHR '' '') s;
          r = dropWhile (\<lambda>c. is_upper c \<or> c = CHR '' '') s
      in if words_of is_upper CHR '' '' tag \<and> starts_with '': '' r
         then (case dot_plus_end (drop 2 r) of Some t \<Rightarrow> Some (tag, t) | None \<Rightarrow> None)
         else None)"

definition metadata_match :: "string \<Rightarrow> (string \<times> string) option" where
  \<comment> \<open>\<open>METADATA_RE\<close>, \<open>^\s*([A-Za-z0-9_-]+(?: [A-Za-z0-9_-]+)*): (.*)$\<close>: groups 1 and 2\<close>
  "metadata_match s =
     (let s1 = dropWhile is_space s;
          key = takeWhile (\<lambda>c. is_ident c \<or> c = CHR '' '') s1;
          r = dropWhile (\<lambda>c. is_ident c \<or> c = CHR '' '') s1
      in if words_of is_ident CHR '' '' key \<and> starts_with '': '' r
         then (case dot_star_end (drop 2 r) of Some v \<Rightarrow> Some (key, v) | None \<Rightarrow> None)
         else None)"

definition section_match :: "string \<Rightarrow> (string \<times> string \<times> string option) option" where
  \<comment> \<open>\<open>SECTION_RE\<close>, \<open>^(\d+(?:\.\d+)*)\.? ([A-Z](?:[A-Z ]*[A-Z])?)(?:: (.*))?$\<close>: groups 1,
      2 and 3. The number and its optional dot are the longest prefix of digits and dots,
      since a space follows; the title is the longest run of capitals and spaces, since
      a colon or the end of the line follows.\<close>
  "section_match s =
     (let numrun = takeWhile (\<lambda>c. is_digit c \<or> c = CHR ''.'') s;
          r1 = dropWhile (\<lambda>c. is_digit c \<or> c = CHR ''.'') s;
          num = (if words_of is_digit CHR ''.'' numrun then Some numrun
                 else if numrun \<noteq> [] \<and> last numrun = CHR ''.''
                         \<and> words_of is_digit CHR ''.'' (butlast numrun)
                 then Some (butlast numrun) else None)
      in case num of
           None \<Rightarrow> None
         | Some number \<Rightarrow>
             if starts_with '' '' r1 then
               (let title = takeWhile (\<lambda>c. is_upper c \<or> c = CHR '' '') (drop 1 r1);
                    r3 = dropWhile (\<lambda>c. is_upper c \<or> c = CHR '' '') (drop 1 r1)
                in if title \<noteq> [] \<and> is_upper (hd title) \<and> is_upper (last title) then
                     (if starts_with '': '' r3 then
                        (case dot_star_end (drop 2 r3) of
                           Some d \<Rightarrow> Some (number, title, Some d)
                         | None \<Rightarrow> None)
                      else if r3 = [] \<or> r3 = [CHR 0x0A] then Some (number, title, None)
                      else None)
                   else None)
             else None)"

definition bullet_match :: "string \<Rightarrow> (string \<times> char \<times> string) option" where
  \<comment> \<open>\<open>BULLET_RE\<close>, \<open>^(\s*)([-*+]) (.+)$\<close>: groups 1, 2 and 3\<close>
  "bullet_match s =
     (case dropWhile is_space s of
        m # sp # t \<Rightarrow>
          if (m = CHR ''-'' \<or> m = CHR ''*'' \<or> m = CHR ''+'') \<and> sp = CHR '' ''
          then (case dot_plus_end t of
                  Some g \<Rightarrow> Some (takeWhile is_space s, m, g)
                | None \<Rightarrow> None)
          else None
      | _ \<Rightarrow> None)"

definition table_match :: "string \<Rightarrow> bool" where
  \<comment> \<open>\<open>TABLE_RE\<close>, \<open>^\s*\|\<close>\<close>
  "table_match s \<longleftrightarrow> starts_with ''|'' (dropWhile is_space s)"

definition fence_match :: "string \<Rightarrow> (string \<times> string) option" where
  \<comment> \<open>\<open>FENCE_RE\<close>, \<open>^(\s*)```(.*)$\<close>: groups 1 and 2\<close>
  "fence_match s =
     (let r = dropWhile is_space s in
      if starts_with [CHR 0x60, CHR 0x60, CHR 0x60] r
      then (case dot_star_end (drop 3 r) of
              Some g \<Rightarrow> Some (takeWhile is_space s, g)
            | None \<Rightarrow> None)
      else None)"

definition comment_match :: "string \<Rightarrow> bool" where
  \<comment> \<open>\<open>COMMENT_RE\<close>, \<open>^\s*#\<close>\<close>
  "comment_match s \<longleftrightarrow> starts_with ''#'' (dropWhile is_space s)"

section \<open>Diagnostics and the syntax tree\<close>

datatype severity_level = Error | Warning

datatype diagnostic_code
  = EMPTY | HEADER_INVALID | INLINE_COMMENT_ILLEGAL | SECTION_PARENT_MISSING
  | FENCE_UNTERMINATED | FENCE_IN_TABLE

record diagnostic =
  severity :: severity_level
  message :: string
  diag_loc :: position
  diag_code :: diagnostic_code

datatype header = Header string string loc

datatype metadata_entry = MetadataEntry string string loc

datatype table_row = TableRow "string list" "loc option"

datatype bullet_item = BulletItem char "inline list" "string list option" loc

datatype block
  = BlankLine loc
  | WholeLineComment string loc
  | FencedCodeBlock "string option" nat "string list" loc
  | Table table_row "table_row option" "table_row list" loc
  | Section "nat list" string "string option" nat "block list" loc
  | BulletList "bullet_item list" loc
  | Paragraph "inline list" loc

record document =
  doc_header :: "header option"
  doc_metadata :: "metadata_entry list"
  doc_body :: "block list"
  doc_diagnostics :: "diagnostic list option"

section \<open>Comment stripping\<close>

fun comment_marker_pos :: "bool \<Rightarrow> string \<Rightarrow> nat \<Rightarrow> nat option" where
  \<comment> \<open>the scan shared by \<open>strip_illegal_inline_comment\<close> and
      \<open>strip_inline_comment_for_detection\<close>: the index of the first \<open>i#\<close> outside
      backticks\<close>
  "comment_marker_pos in_code [] i = None"
| "comment_marker_pos in_code (ch # rest) i =
     (if ch = CHR 0x60 then comment_marker_pos (\<not> in_code) rest (i + 1)
      else if \<not> in_code \<and> starts_with ''i#'' (ch # rest) then Some i
      else comment_marker_pos in_code rest (i + 1))"

definition strip_illegal_inline_comment ::
  "string \<Rightarrow> nat \<Rightarrow> diagnostic list \<Rightarrow> string \<times> diagnostic list" where
  "strip_illegal_inline_comment s line_no diagnostics =
     (case comment_marker_pos False s 0 of
        Some i \<Rightarrow>
          (rstrip (take i s),
           diagnostics @ [\<lparr>severity = Warning,
              message = ''Inline comment not allowed in this context; stripped before parsing.'',
              diag_loc = Position line_no (i + 1), diag_code = INLINE_COMMENT_ILLEGAL\<rparr>])
      | None \<Rightarrow> (s, diagnostics))"

definition strip_inline_comment_for_detection :: "string \<Rightarrow> string" where
  "strip_inline_comment_for_detection s =
     (case comment_marker_pos False s 0 of Some i \<Rightarrow> rstrip (take i s) | None \<Rightarrow> s)"

section \<open>Header and tables\<close>

definition parse_header :: "string \<Rightarrow> nat \<Rightarrow> diagnostic list \<Rightarrow> header option \<times> diagnostic list" where
  "parse_header s line_no diagnostics =
     (case header_match s of
        None \<Rightarrow>
          (None,
           diagnostics @ [\<lparr>severity = Error, message = ''Invalid or missing header line'',
              diag_loc = Position line_no 1, diag_code = HEADER_INVALID\<rparr>])
      | Some (tag, t) \<Rightarrow>
          (Some (Header tag t (make_loc line_no 1 (Some line_no) (Some (length s + 1)))),
           diagnostics))"

definition fence_marker :: string where
  "fence_marker = [CHR 0x60, CHR 0x60, CHR 0x60]"

definition row_cells :: "string \<Rightarrow> string list" where
  \<comment> \<open>\<open>[cell.strip() for cell in row.strip().split("|")[1:-1]]\<close>\<close>
  "row_cells row = map strip (butlast (tl (split_on CHR ''|'' (strip row))))"

fun table_rows_loop ::
  "string list \<Rightarrow> nat \<Rightarrow> nat \<Rightarrow> table_row list \<Rightarrow> diagnostic list
     \<Rightarrow> table_row list \<times> diagnostic list" where
  \<comment> \<open>\<open>for idx, row in enumerate(rows)\<close> in \<open>parse_table\<close>\<close>
  "table_rows_loop [] idx start_line parsed_rows diagnostics = (parsed_rows, diagnostics)"
| "table_rows_loop (row # rest) idx start_line parsed_rows diagnostics =
     table_rows_loop rest (idx + 1) start_line
       (parsed_rows @ [TableRow (row_cells row)
          (Some (make_loc (start_line + idx) 1 (Some (start_line + idx))
             (Some (length (rstrip row) + 1))))])
       (case find_sub fence_marker row 0 of
          Some k \<Rightarrow>
            diagnostics @ [\<lparr>severity = Error,
              message = ''Fenced code block delimiter inside table is not allowed.'',
              diag_loc = Position (start_line + idx) (k + 1), diag_code = FENCE_IN_TABLE\<rparr>]
        | None \<Rightarrow> diagnostics)"

definition parse_table :: "string list \<Rightarrow> diagnostic list \<Rightarrow> nat \<Rightarrow> block \<times> diagnostic list" where
  "parse_table rows diagnostics start_line =
     (case table_rows_loop rows 0 start_line [] diagnostics of
        (parsed_rows, diagnostics1) \<Rightarrow>
          (let header_row = (case parsed_rows of r # _ \<Rightarrow> r | [] \<Rightarrow> TableRow [] None);
               align_row = (if length parsed_rows > 1 then Some (parsed_rows ! 1) else None);
               data_rows = (if length parsed_rows > 2 then drop 2 parsed_rows else []);
               end_line = (if rows \<noteq> [] then start_line + length rows - 1 else start_line);
               end_col = (if rows \<noteq> [] then length (rstrip (last rows)) + 1 else 1)
           in (Table header_row align_row data_rows
                 (make_loc start_line 1 (Some end_line) (Some end_col)),
               diagnostics1)))"

section \<open>The section tree\<close>

text \<open>
  The source keeps the open sections on a stack of references to nodes that are also
  in the tree, and appends to their bodies in place. Here a reference to a body is the
  list of child indices that leads to it from the root body (\<open>[]\<close> is the root body
  itself): bodies only grow at their end, so an index keeps naming the same node. A
  stack entry holds this reference and the section's number, which is never changed
  after the section is created.
\<close>

datatype open_section = OpenSection (handle: "nat list") (number: "nat list")

fun append_at :: "nat list \<Rightarrow> block \<Rightarrow> block list \<Rightarrow> block list" where
  \<comment> \<open>\<open>target.append(block)\<close> for the body that the reference names\<close>
  "append_at [] b body = body @ [b]"
| "append_at (i # p) b body =
     (if i < length body then
        (case body ! i of
           Section num title desc lvl sb l \<Rightarrow>
             body[i := Section num title desc lvl (append_at p b sb) l]
         | _ \<Rightarrow> body)
      else body)"

fun body_at :: "nat list \<Rightarrow> block list \<Rightarrow> block list" where
  \<comment> \<open>the body that the reference names\<close>
  "body_at [] body = body"
| "body_at (i # p) body =
     (if i < length body then
        (case body ! i of Section num title desc lvl sb l \<Rightarrow> body_at p sb | _ \<Rightarrow> [])
      else [])"

definition add_block :: "block list \<Rightarrow> open_section list \<Rightarrow> block \<Rightarrow> block list" where
  "add_block body section_stack b =
     append_at (if section_stack \<noteq> [] then handle (last section_stack) else []) b body"

function pop_to_level :: "open_section list \<Rightarrow> nat \<Rightarrow> open_section list" where
  \<comment> \<open>the \<open>while\<close> loop of \<open>place_section\<close>; \<open>k\<close> is \<open>len(section["number"])\<close>\<close>
  "pop_to_level section_stack k =
     (if section_stack \<noteq> [] \<and> length (number (last section_stack)) \<ge> k
      then pop_to_level (butlast section_stack) k
      else section_stack)"
  by pat_completeness auto
termination
  by (relation "measure (\<lambda>(section_stack, k). length section_stack)") auto

declare pop_to_level.simps [simp del]

fun digit_char :: "nat \<Rightarrow> char" where
  "digit_char n = (''0123456789'' ! n)"

fun str_nat :: "nat \<Rightarrow> string" where
  \<comment> \<open>\<open>str(n)\<close> for a non-negative integer\<close>
  "str_nat n = (if n < 10 then [digit_char n] else str_nat (n div 10) @ [digit_char (n mod 10)])"

fun join_dot :: "string list \<Rightarrow> string" where
  \<comment> \<open>\<open>".".join(xs)\<close>\<close>
  "join_dot [] = []"
| "join_dot [x] = x"
| "join_dot (x # y # ys) = x @ CHR ''.'' # join_dot (y # ys)"

definition int_of :: "string \<Rightarrow> nat" where
  \<comment> \<open>\<open>int(x)\<close> for a string of decimal digits\<close>
  "int_of x = foldl (\<lambda>n c. 10 * n + (of_char c - 48)) 0 x"

fun section_number :: "block \<Rightarrow> nat list" where
  \<comment> \<open>\<open>section["number"]\<close>\<close>
  "section_number (Section num title desc lvl sb l) = num"
| "section_number _ = []"

definition place_section ::
  "block list \<Rightarrow> open_section list \<Rightarrow> block \<Rightarrow> diagnostic list \<Rightarrow> nat
     \<Rightarrow> block list \<times> open_section list \<times> diagnostic list" where
  "place_section body section_stack section diagnostics line_no =
     (let stack1 = pop_to_level section_stack (length (section_number section));
          parent_number = butlast (section_number section);
          parent = (if parent_number \<noteq> []
                    then find (\<lambda>candidate. number candidate = parent_number) (rev stack1)
                    else None);
          diagnostics1 =
            (if parent_number \<noteq> [] \<and> parent = None
             then diagnostics @ [\<lparr>severity = Warning,
                    message = ''Missing parent section '' @ join_dot (map str_nat parent_number)
                                @ ''; attached to document root.'',
                    diag_loc = Position line_no 1, diag_code = SECTION_PARENT_MISSING\<rparr>]
             else diagnostics);
          target = (case parent of Some c \<Rightarrow> handle c | None \<Rightarrow> [])
      in (append_at target section body,
          stack1 @ [OpenSection (target @ [length (body_at target body)]) (section_number section)],
          diagnostics1))"

section \<open>Fenced blocks, bullet lists and paragraphs\<close>

definition fence_closes :: "nat \<Rightarrow> string \<Rightarrow> bool" where
  \<comment> \<open>\<open>l2.startswith(" " * fence_indent + "```") and l2.strip() == "```"\<close>\<close>
  "fence_closes fence_indent l2 \<longleftrightarrow>
     starts_with (replicate fence_indent CHR '' '' @ fence_marker) l2 \<and> strip l2 = fence_marker"

fun fence_loop ::
  "nat \<Rightarrow> string list \<Rightarrow> nat \<Rightarrow> string list \<Rightarrow> nat \<times> string list \<times> bool \<times> string" where
  \<comment> \<open>the inner \<open>while idx < n\<close> of the fenced block; the second argument is
      \<open>lines[idx:]\<close>. The result is \<open>(idx, content, closed, closing_line_text)\<close>.\<close>
  "fence_loop fence_indent [] idx content = (idx, content, False, [])"
| "fence_loop fence_indent (l2 # rest) idx content =
     (if fence_closes fence_indent l2 then (idx + 1, content, True, l2)
      else fence_loop fence_indent rest (idx + 1) (content @ [l2]))"

fun table_loop :: "string list \<Rightarrow> nat \<Rightarrow> string list \<Rightarrow> nat \<times> string list" where
  \<comment> \<open>\<open>while idx < n and TABLE_RE.match(lines[idx])\<close>; the first argument is \<open>lines[idx:]\<close>\<close>
  "table_loop [] idx rows = (idx, rows)"
| "table_loop (l # rest) idx rows =
     (if table_match l then table_loop rest (idx + 1) (rows @ [l]) else (idx, rows))"

fun continuation_loop :: "nat \<Rightarrow> string list \<Rightarrow> nat \<Rightarrow> string list \<Rightarrow> nat \<times> string list" where
  \<comment> \<open>\<open>while lookahead < n\<close> of a bullet item; the second argument is \<open>lines[lookahead:]\<close>\<close>
  "continuation_loop base_indent [] lookahead cont_lines = (lookahead, cont_lines)"
| "continuation_loop base_indent (la_line # rest) lookahead cont_lines =
     (if strip la_line = [] then (lookahead, cont_lines)
      else if bullet_match la_line \<noteq> None then (lookahead, cont_lines)
      else if fence_match la_line \<noteq> None \<or> table_match la_line
              \<or> section_match (strip_inline_comment_for_detection la_line) \<noteq> None
           then (lookahead, cont_lines)
      else if length la_line - length (lstrip_sp la_line) \<ge> base_indent
           then continuation_loop base_indent rest (lookahead + 1) (cont_lines @ [strip la_line])
      else (lookahead, cont_lines))"

lemma continuation_loop_bounds:
  "continuation_loop b ls la cont = (la', cont') \<Longrightarrow> la \<le> la' \<and> la' \<le> la + length ls"
proof (induction ls arbitrary: la cont)
  case Nil
  then show ?case by simp
next
  case (Cons l ls)
  show ?case
  proof (cases "continuation_loop b (l # ls) la cont = continuation_loop b ls (la + 1) (cont @ [strip l])")
    case True
    with Cons.prems have "continuation_loop b ls (la + 1) (cont @ [strip l]) = (la', cont')" by simp
    from Cons.IH [OF this] show ?thesis by simp
  next
    case False
    then have "continuation_loop b (l # ls) la cont = (la, cont)"
      by (simp split: if_splits)
    with Cons.prems show ?thesis by simp
  qed
qed

function bullet_loop :: "string list \<Rightarrow> nat \<Rightarrow> bullet_item list \<Rightarrow> nat \<times> bullet_item list" where
  \<comment> \<open>\<open>while idx < n\<close> of the bullet list: \<open>(idx, items)\<close>\<close>
  "bullet_loop lines idx items =
     (if idx < length lines then
        (case bullet_match (lines ! idx) of
           None \<Rightarrow> (idx, items)
         | Some (ws, marker, text) \<Rightarrow>
             (case continuation_loop (length ws + 2) (drop (idx + 1) lines) (idx + 1) [] of
                (lookahead, cont_lines) \<Rightarrow>
                  (let indent = length ws;
                       full_text = join_sp (text # cont_lines);
                       inline_nodes = parse_inline full_text True (idx + 1) (indent + 3);
                       last_line_idx = lookahead - 1
                   in bullet_loop lines lookahead
                        (items @ [BulletItem marker inline_nodes
                            (if cont_lines \<noteq> [] then Some cont_lines else None)
                            (make_loc (idx + 1) (indent + 1) (Some (last_line_idx + 1))
                               (Some (length (rstrip (lines ! last_line_idx)) + 1)))]))))
      else (idx, items))"
  by pat_completeness auto
termination
  apply (relation "measure (\<lambda>(lines, idx, items). length lines - idx)")
   apply simp
  apply (auto dest: continuation_loop_bounds continuation_loop_bounds [OF sym])
  done

declare bullet_loop.simps [simp del]

fun para_loop :: "string list \<Rightarrow> nat \<Rightarrow> (nat \<times> string) list \<Rightarrow> nat \<times> (nat \<times> string) list" where
  \<comment> \<open>\<open>while idx < n\<close> of the paragraph; the first argument is \<open>lines[idx:]\<close>\<close>
  "para_loop [] idx para_lines = (idx, para_lines)"
| "para_loop (l # rest) idx para_lines =
     (if strip l = [] then (idx, para_lines)
      else if fence_match l \<noteq> None \<or> table_match l
              \<or> section_match (strip_inline_comment_for_detection l) \<noteq> None
              \<or> comment_match l \<or> bullet_match l \<noteq> None
           then (idx, para_lines)
      else para_loop rest (idx + 1) (para_lines @ [(idx, l)]))"

section \<open>The document parser\<close>

record scan_state =
  st_body :: "block list"
  st_stack :: "open_section list"
  st_diagnostics :: "diagnostic list"

fun item_loc :: "bullet_item \<Rightarrow> loc" where
  "item_loc (BulletItem marker inl cont l) = l"

definition fenced_block_step :: "string list \<Rightarrow> nat \<Rightarrow> string \<Rightarrow> string \<Rightarrow> scan_state \<Rightarrow> nat \<times> scan_state" where
  \<comment> \<open>the branch \<open>if m_fence\<close>; \<open>g1\<close> and \<open>g2\<close> are the groups of \<open>m_fence\<close>\<close>
  "fenced_block_step lines idx g1 g2 st =
     (let fence_start_line = idx + 1;
          fence_indent = length g1;
          info = (if strip g2 \<noteq> [] then Some (strip g2) else None)
      in case fence_loop fence_indent (drop (idx + 1) lines) (idx + 1) [] of
           (idx1, content, closed, closing_line_text) \<Rightarrow>
             (let end_line_no = fence_start_line + length content + (if closed then 1 else 0);
                  end_col = (if closing_line_text \<noteq> [] then length closing_line_text + 1
                             else if content \<noteq> [] then length (last content) + 1 else 1);
                  diagnostics1 =
                    (if \<not> closed
                     then st_diagnostics st @ [\<lparr>severity = Error,
                            message = ''Unterminated fenced code block'',
                            diag_loc = Position (fence_start_line + length content) 1,
                            diag_code = FENCE_UNTERMINATED\<rparr>]
                     else st_diagnostics st)
              in (idx1,
                  st\<lparr>st_body := add_block (st_body st) (st_stack st)
                        (FencedCodeBlock info fence_indent content
                           (make_loc fence_start_line 1 (Some end_line_no) (Some end_col))),
                     st_diagnostics := diagnostics1\<rparr>)))"

definition table_step :: "string list \<Rightarrow> nat \<Rightarrow> scan_state \<Rightarrow> nat \<times> scan_state" where
  \<comment> \<open>the branch \<open>if TABLE_RE.match(line)\<close>\<close>
  "table_step lines idx st =
     (case table_loop (drop idx lines) idx [] of
        (idx1, rows) \<Rightarrow>
          (case parse_table rows (st_diagnostics st) (idx + 1) of
             (table_node, diagnostics1) \<Rightarrow>
               (idx1,
                st\<lparr>st_body := add_block (st_body st) (st_stack st) table_node,
                   st_diagnostics := diagnostics1\<rparr>)))"

definition bullet_list_step :: "string list \<Rightarrow> nat \<Rightarrow> scan_state \<Rightarrow> nat \<times> scan_state" where
  \<comment> \<open>the branch \<open>if m_bullet\<close>\<close>
  "bullet_list_step lines idx st =
     (let list_start_line = idx + 1 in
      case bullet_loop lines idx [] of
        (idx1, items) \<Rightarrow>
          (let list_end_line = (if items \<noteq> [] then pos_line (loc_end (item_loc (last items)))
                                else list_start_line);
               list_end_col = (if items \<noteq> [] then pos_column (loc_end (item_loc (last items)))
                               else 1)
           in (idx1,
               st\<lparr>st_body := add_block (st_body st) (st_stack st)
                     (BulletList items
                        (make_loc list_start_line 1 (Some list_end_line) (Some list_end_col)))\<rparr>)))"

definition paragraph_step :: "string list \<Rightarrow> nat \<Rightarrow> scan_state \<Rightarrow> nat \<times> scan_state" where
  \<comment> \<open>the default branch\<close>
  "paragraph_step lines idx st =
     (case para_loop (drop idx lines) idx [] of
        (idx1, para_lines) \<Rightarrow>
          if para_lines \<noteq> [] then
            (let text = join_sp (map (\<lambda>pl. strip (snd pl)) para_lines);
                 inline_nodes = parse_inline text True (fst (hd para_lines) + 1) 1;
                 last_line_idx = fst (last para_lines)
             in (idx1,
                 st\<lparr>st_body := add_block (st_body st) (st_stack st)
                       (Paragraph inline_nodes
                          (make_loc (fst (hd para_lines) + 1) 1 (Some (last_line_idx + 1))
                             (Some (length (rstrip (lines ! last_line_idx)) + 1))))\<rparr>))
          else (idx1 + 1, st))"

definition late_step :: "string list \<Rightarrow> nat \<Rightarrow> scan_state \<Rightarrow> nat \<times> scan_state" where
  \<comment> \<open>the branches after the section heading: whole-line comment, bullet list,
      paragraph\<close>
  "late_step lines idx st =
     (let l = lines ! idx in
      if comment_match l then
        (idx + 1,
         st\<lparr>st_body := add_block (st_body st) (st_stack st)
               (WholeLineComment (lstrip (drop 1 (lstrip l)))
                  (make_loc (idx + 1) 1 (Some (idx + 1)) (Some (length l + 1))))\<rparr>)
      else if bullet_match l \<noteq> None then bullet_list_step lines idx st
      else paragraph_step lines idx st)"

definition section_step :: "string list \<Rightarrow> nat \<Rightarrow> scan_state \<Rightarrow> nat \<times> scan_state" where
  \<comment> \<open>the branch \<open>if SECTION_RE.match(cleaned_probe)\<close>, which falls through to the later
      branches when the second match fails\<close>
  "section_step lines idx st =
     (let l = lines ! idx in
      case strip_illegal_inline_comment l (idx + 1) (st_diagnostics st) of
        (cleaned_line, diagnostics1) \<Rightarrow>
          (case section_match cleaned_line of
             Some (g1, title, desc) \<Rightarrow>
               (let sec_number = map int_of (split_on CHR ''.'' g1);
                    sec_node = Section sec_number title
                                 (case desc of Some d \<Rightarrow> (if d \<noteq> [] then Some d else None)
                                  | None \<Rightarrow> None)
                                 (length sec_number) []
                                 (make_loc (idx + 1) 1 (Some (idx + 1)) (Some (length (rstrip l) + 1)))
                in case place_section (st_body st) (st_stack st) sec_node diagnostics1 (idx + 1) of
                     (body1, stack1, diagnostics2) \<Rightarrow>
                       (idx + 1,
                        \<lparr>st_body = body1, st_stack = stack1, st_diagnostics = diagnostics2\<rparr>))
           | None \<Rightarrow> late_step lines idx (st\<lparr>st_diagnostics := diagnostics1\<rparr>)))"

definition body_step :: "string list \<Rightarrow> nat \<Rightarrow> scan_state \<Rightarrow> nat \<times> scan_state" where
  \<comment> \<open>one turn of the body loop \<open>while idx < n\<close>, at \<open>idx < n\<close>\<close>
  "body_step lines idx st =
     (let l = lines ! idx in
      if strip l = [] then
        (idx + 1,
         st\<lparr>st_body := st_body st
               @ [BlankLine (make_loc (idx + 1) 1 (Some (idx + 1)) (Some (length l + 1)))]\<rparr>)
      else
        (case fence_match l of
           Some (g1, g2) \<Rightarrow> fenced_block_step lines idx g1 g2 st
         | None \<Rightarrow>
             if table_match l then table_step lines idx st
             else if section_match (strip_inline_comment_for_detection l) \<noteq> None
                  then section_step lines idx st
             else late_step lines idx st))"

subsection \<open>Every turn of the body loop consumes a line\<close>

lemma fence_loop_idx:
  "fence_loop k ls idx content = (idx1, c1, closed, ct) \<Longrightarrow> idx \<le> idx1 \<and> idx1 \<le> idx + length ls"
proof (induction ls arbitrary: idx content)
  case Nil
  then show ?case by simp
next
  case (Cons l ls)
  show ?case
  proof (cases "fence_closes k l")
    case True
    with Cons.prems show ?thesis by simp
  next
    case False
    with Cons.prems have "fence_loop k ls (idx + 1) (content @ [l]) = (idx1, c1, closed, ct)" by simp
    from Cons.IH [OF this] show ?thesis by simp
  qed
qed

lemma table_loop_eq:
  "table_loop ls idx rows =
     (idx + length (takeWhile table_match ls), rows @ takeWhile table_match ls)"
  by (induction ls arbitrary: idx rows) simp_all

lemma para_loop_idx:
  "para_loop ls idx pl = (idx1, pl1) \<Longrightarrow>
     idx \<le> idx1 \<and> idx1 \<le> idx + length ls \<and> length pl1 + idx = length pl + idx1"
proof (induction ls arbitrary: idx pl)
  case Nil
  then show ?case by simp
next
  case (Cons l ls)
  show ?case
  proof (cases "para_loop (l # ls) idx pl = para_loop ls (idx + 1) (pl @ [(idx, l)])")
    case True
    with Cons.prems have "para_loop ls (idx + 1) (pl @ [(idx, l)]) = (idx1, pl1)" by simp
    from Cons.IH [OF this] show ?thesis by simp
  next
    case False
    then have "para_loop (l # ls) idx pl = (idx, pl)" by (simp split: if_splits)
    with Cons.prems show ?thesis by simp
  qed
qed

lemma bullet_loop_idx:
  "bullet_loop lines idx items = (idx1, items1) \<Longrightarrow> idx \<le> idx1 \<and> idx1 \<le> max idx (length lines)"
proof (induction lines idx items arbitrary: idx1 items1 rule: bullet_loop.induct)
  case (1 lines idx items)
  show ?case
  proof (cases "idx < length lines")
    case False
    with "1.prems" show ?thesis by (simp add: bullet_loop.simps [of lines idx items])
  next
    case True
    show ?thesis
    proof (cases "bullet_match (lines ! idx)")
      case None
      with True "1.prems" show ?thesis by (simp add: bullet_loop.simps [of lines idx items])
    next
      case (Some g)
      obtain ws marker t where g: "g = (ws, marker, t)" by (cases g)
      obtain la cont where c: "continuation_loop (length ws + 2) (drop (idx + 1) lines) (idx + 1) [] = (la, cont)"
        by (cases "continuation_loop (length ws + 2) (drop (idx + 1) lines) (idx + 1) []")
      from True have "idx + 1 + length (drop (idx + 1) lines) = length lines" by simp
      with continuation_loop_bounds [OF c] have la: "idx + 1 \<le> la" "la \<le> length lines"
        by (simp_all del: length_drop)
      let ?items = "items @ [BulletItem marker (parse_inline (join_sp (t # cont)) True (idx + 1) (length ws + 3))
                            (if cont \<noteq> [] then Some cont else None)
                            (make_loc (idx + 1) (length ws + 1) (Some (la - 1 + 1))
                               (Some (length (rstrip (lines ! (la - 1))) + 1)))]"
      from "1.prems" True Some g c have r: "bullet_loop lines la ?items = (idx1, items1)"
        by (simp add: bullet_loop.simps [of lines idx items] Let_def)
      have "la \<le> idx1 \<and> idx1 \<le> max la (length lines)"
        by (rule "1.IH" [OF True Some g [symmetric] refl c [symmetric] refl refl refl refl r])
      with la show ?thesis by simp
    qed
  qed
qed

lemma fenced_block_step_idx:
  assumes "idx < length lines" and "fenced_block_step lines idx g1 g2 st = (idx1, st1)"
  shows "idx < idx1 \<and> idx1 \<le> length lines"
proof -
  obtain i c cl ct where f: "fence_loop (length g1) (drop (idx + 1) lines) (idx + 1) [] = (i, c, cl, ct)"
    by (cases "fence_loop (length g1) (drop (idx + 1) lines) (idx + 1) []") auto
  from assms(2) f have "idx1 = i" by (simp add: fenced_block_step_def Let_def)
  moreover from assms(1) have "idx + 1 + length (drop (idx + 1) lines) = length lines" by simp
  with fence_loop_idx [OF f] have "idx + 1 \<le> i" "i \<le> length lines" by (simp_all del: length_drop)
  ultimately show ?thesis by simp
qed

lemma table_step_idx:
  assumes "idx < length lines" and "table_match (lines ! idx)" and "table_step lines idx st = (idx1, st1)"
  shows "idx < idx1 \<and> idx1 \<le> length lines"
proof -
  from assms(1) have d: "drop idx lines = lines ! idx # drop (Suc idx) lines"
    by (simp add: Cons_nth_drop_Suc)
  from assms(3) have i: "idx1 = idx + length (takeWhile table_match (drop idx lines))"
    by (simp add: table_step_def table_loop_eq split: prod.splits)
  have "length (takeWhile table_match (drop idx lines)) \<le> length (drop idx lines)"
    by (rule length_takeWhile_le)
  moreover from d assms(2) have "0 < length (takeWhile table_match (drop idx lines))" by simp
  ultimately show ?thesis using i assms(1) by simp
qed

lemma bullet_list_step_idx:
  assumes "idx < length lines" and "bullet_match (lines ! idx) \<noteq> None"
    and "bullet_list_step lines idx st = (idx1, st1)"
  shows "idx < idx1 \<and> idx1 \<le> length lines"
proof -
  from assms(2) obtain ws marker t where g: "bullet_match (lines ! idx) = Some (ws, marker, t)"
    by (cases "bullet_match (lines ! idx)") auto
  obtain la cont where c: "continuation_loop (length ws + 2) (drop (idx + 1) lines) (idx + 1) [] = (la, cont)"
    by (cases "continuation_loop (length ws + 2) (drop (idx + 1) lines) (idx + 1) []")
  from assms(1) have "idx + 1 + length (drop (idx + 1) lines) = length lines" by simp
  with continuation_loop_bounds [OF c] have la: "idx + 1 \<le> la" "la \<le> length lines"
    by (simp_all del: length_drop)
  obtain i items where b: "bullet_loop lines idx [] = (i, items)"
    by (cases "bullet_loop lines idx []")
  let ?items = "[] @ [BulletItem marker (parse_inline (join_sp (t # cont)) True (idx + 1) (length ws + 3))
                            (if cont \<noteq> [] then Some cont else None)
                            (make_loc (idx + 1) (length ws + 1) (Some (la - 1 + 1))
                               (Some (length (rstrip (lines ! (la - 1))) + 1)))]"
  from b assms(1) g c have "bullet_loop lines la ?items = (i, items)"
    by (simp add: bullet_loop.simps [of lines idx "[]"] Let_def)
  from bullet_loop_idx [OF this] la have "idx < i" "i \<le> length lines" by simp_all
  moreover from assms(3) b have "idx1 = i" by (simp add: bullet_list_step_def Let_def)
  ultimately show ?thesis by simp
qed

lemma paragraph_step_idx:
  assumes "idx < length lines" and "paragraph_step lines idx st = (idx1, st1)"
  shows "idx < idx1 \<and> idx1 \<le> length lines"
proof -
  obtain i pl where p: "para_loop (drop idx lines) idx [] = (i, pl)"
    by (cases "para_loop (drop idx lines) idx []")
  from para_loop_idx [OF p] assms(1)
  have b: "idx \<le> i" "i \<le> length lines" "length pl + idx = i" by simp_all
  show ?thesis
  proof (cases "pl = []")
    case True
    with assms(2) p have "idx1 = i + 1" by (simp add: paragraph_step_def)
    with True b assms(1) show ?thesis by simp
  next
    case False
    with assms(2) p have "idx1 = i" by (simp add: paragraph_step_def Let_def)
    moreover from False have "0 < length pl" by simp
    ultimately show ?thesis using b by linarith
  qed
qed

lemma late_step_idx:
  assumes "idx < length lines" and "late_step lines idx st = (idx1, st1)"
  shows "idx < idx1 \<and> idx1 \<le> length lines"
  using assms bullet_list_step_idx [of idx lines st idx1 st1] paragraph_step_idx [of idx lines st idx1 st1]
  by (auto simp: late_step_def Let_def split: if_splits)

lemma section_step_idx:
  assumes "idx < length lines" and "section_step lines idx st = (idx1, st1)"
  shows "idx < idx1 \<and> idx1 \<le> length lines"
  using assms late_step_idx [of idx lines _ idx1 st1]
  by (auto simp: section_step_def Let_def split: prod.splits option.splits)

lemma body_step_idx:
  assumes "idx < length lines" and "body_step lines idx st = (idx1, st1)"
  shows "idx < idx1 \<and> idx1 \<le> length lines"
  using assms fenced_block_step_idx [of idx lines _ _ st idx1 st1] table_step_idx [of idx lines st idx1 st1]
    section_step_idx [of idx lines st idx1 st1] late_step_idx [of idx lines st idx1 st1]
  by (auto simp: body_step_def Let_def split: if_splits option.splits)

subsection \<open>The loops of \<open>parse_document\<close>\<close>

function parse_body :: "string list \<Rightarrow> nat \<Rightarrow> scan_state \<Rightarrow> scan_state" where
  \<comment> \<open>the body loop \<open>while idx < n\<close>\<close>
  "parse_body lines idx st =
     (if idx < length lines
      then (case body_step lines idx st of (idx1, st1) \<Rightarrow> parse_body lines idx1 st1)
      else st)"
  by pat_completeness auto
termination
proof (relation "measure (\<lambda>(lines, idx, st). length lines - idx)", goal_cases)
  case 1
  show ?case by simp
next
  case (2 lines idx st x y)
  then have "body_step lines idx st = (x, y)" by simp
  from body_step_idx [OF "2"(1) this] have "length lines - x < length lines - idx" by linarith
  with \<open>body_step lines idx st = (x, y)\<close> show ?case by simp
qed

declare parse_body.simps [simp del]

function metadata_loop ::
  "string list \<Rightarrow> nat \<Rightarrow> metadata_entry list \<Rightarrow> diagnostic list
     \<Rightarrow> nat \<times> metadata_entry list \<times> diagnostic list" where
  \<comment> \<open>the metadata loop \<open>while idx < n\<close>: \<open>(idx, metadata, diagnostics)\<close>\<close>
  "metadata_loop lines idx metadata diagnostics =
     (if idx < length lines then
        (let l = lines ! idx in
         if strip l = [] then (idx + 1, metadata, diagnostics)
         else
           (case metadata_match l of
              None \<Rightarrow> (idx, metadata, diagnostics)
            | Some m \<Rightarrow>
                (case strip_illegal_inline_comment l (idx + 1) diagnostics of
                   (cleaned_line, diagnostics1) \<Rightarrow>
                     (case metadata_match cleaned_line of
                        None \<Rightarrow> (idx, metadata, diagnostics1)
                      | Some (key, val) \<Rightarrow>
                          metadata_loop lines (idx + 1)
                            (metadata @ [MetadataEntry key val
                               (make_loc (idx + 1) 1 (Some (idx + 1)) (Some (length l + 1)))])
                            diagnostics1))))
      else (idx, metadata, diagnostics))"
  by pat_completeness auto
termination
  by (relation "measure (\<lambda>(lines, idx, metadata, diagnostics). length lines - idx)") auto

declare metadata_loop.simps [simp del]

fun first_non_blank :: "string list \<Rightarrow> nat \<Rightarrow> nat option" where
  \<comment> \<open>\<open>for i, ln in enumerate(lines)\<close>: the index of the first line that is not blank\<close>
  "first_non_blank [] i = None"
| "first_non_blank (ln # rest) i = (if strip ln \<noteq> [] then Some i else first_non_blank rest (i + 1))"

definition parse_document :: "string list \<Rightarrow> document" where
  "parse_document lines =
     (case first_non_blank lines 0 of
        None \<Rightarrow>
          \<lparr>doc_header = None, doc_metadata = [], doc_body = [],
           doc_diagnostics = Some [\<lparr>severity = Error, message = ''Empty document'',
              diag_loc = Position 1 1, diag_code = EMPTY\<rparr>]\<rparr>
      | Some idx \<Rightarrow>
          (case strip_illegal_inline_comment (lines ! idx) (idx + 1) [] of
             (header_line, diagnostics1) \<Rightarrow>
               (case parse_header header_line (idx + 1) diagnostics1 of
                  (header, diagnostics2) \<Rightarrow>
                    (case metadata_loop lines (idx + 1) [] diagnostics2 of
                       (idx2, metadata, diagnostics3) \<Rightarrow>
                         (let st = parse_body lines idx2
                                     \<lparr>st_body = [], st_stack = [], st_diagnostics = diagnostics3\<rparr>
                          in \<lparr>doc_header = header, doc_metadata = metadata,
                              doc_body = st_body st,
                              doc_diagnostics = (if st_diagnostics st \<noteq> []
                                                 then Some (st_diagnostics st) else None)\<rparr>)))))"

section \<open>Projections used to state the properties\<close>

fun label_fields :: "inline \<Rightarrow> (string \<times> string option) option" where
  \<comment> \<open>the identifier and the text field of an \<open>InlineLabel\<close>\<close>
  "label_fields (InlineLabel identifier t l) = Some (identifier, t)"
| "label_fields _ = None"

definition empty_document :: document where
  "empty_document =
     \<lparr>doc_header = None, doc_metadata = [], doc_body = [],
      doc_diagnostics = Some [\<lparr>severity = Error, message = ''Empty document'',
         diag_loc = Position 1 1, diag_code = EMPTY\<rparr>]\<rparr>"

fun row_cells_of :: "table_row \<Rightarrow> string list" where
  "row_cells_of (TableRow cells l) = cells"

fun table_rows_of :: "block \<Rightarrow> table_row list" where
  \<comment> \<open>the rows of a \<open>Table\<close> in source order: header, alignment row, data rows\<close>
  "table_rows_of (Table header_row align_row data_rows l) =
     header_row # (case align_row of Some r \<Rightarrow> [r] | None \<Rightarrow> []) @ data_rows"
| "table_rows_of _ = []"

definition fence_in_table_diag :: "nat \<Rightarrow> nat \<Rightarrow> diagnostic" where
  "fence_in_table_diag line_no col =
     \<lparr>severity = Error, message = ''Fenced code block delimiter inside table is not allowed.'',
      diag_loc = Position line_no col, diag_code = FENCE_IN_TABLE\<rparr>"

definition collected_rows :: "string list \<Rightarrow> nat \<Rightarrow> string list" where
  \<comment> \<open>the rows that the table loop collects from \<open>idx\<close> on\<close>
  "collected_rows lines idx = takeWhile table_match (drop idx lines)"

definition fence_unterminated_diag :: "nat \<Rightarrow> diagnostic" where
  "fence_unterminated_diag line_no =
     \<lparr>severity = Error, message = ''Unterminated fenced code block'',
      diag_loc = Position line_no 1, diag_code = FENCE_UNTERMINATED\<rparr>"

fun inline_source :: "inline \<Rightarrow> string" where
  \<comment> \<open>the characters of the lexed text that a node stands for\<close>
  "inline_source (Text v l) = v"
| "inline_source (InlineCode c l) = CHR 0x60 # c @ [CHR 0x60]"
| "inline_source (InlineLabel identifier t l) =
     identifier @ CHR '':'' # (case t of Some x \<Rightarrow> x | None \<Rightarrow> [])"
| "inline_source (InlineComment t l) = []"

fun is_inline_code :: "inline \<Rightarrow> bool" where
  "is_inline_code (InlineCode c l) = True"
| "is_inline_code _ = False"

definition backticks :: "string \<Rightarrow> nat" where
  \<comment> \<open>the number of backticks of a text\<close>
  "backticks s = length (filter (\<lambda>c. c = CHR 0x60) s)"

definition next_label_start :: "string \<Rightarrow> nat \<Rightarrow> nat" where
  \<comment> \<open>\<open>end\<close> in \<open>parse_labels_into\<close>: the start of the next label match, or the end of
      the text\<close>
  "next_label_start s m_end =
     (case label_search s m_end of Some (n_start, n_end) \<Rightarrow> n_start | None \<Rightarrow> length s)"

definition label_node :: "string \<Rightarrow> nat \<Rightarrow> nat \<Rightarrow> nat \<Rightarrow> nat \<Rightarrow> inline" where
  "label_node s line_no base_col m_start m_end =
     InlineLabel (slice s m_start (m_end - 1))
       (if slice s m_end (next_label_start s m_end) \<noteq> []
        then Some (slice s m_end (next_label_start s m_end)) else None)
       (make_loc line_no (base_col + m_start) (Some line_no)
          (Some (base_col + next_label_start s m_end)))"

definition pos_le :: "position \<Rightarrow> position \<Rightarrow> bool" where
  \<comment> \<open>the lexicographic order on (line, column)\<close>
  "pos_le p q \<longleftrightarrow>
     pos_line p < pos_line q \<or> (pos_line p = pos_line q \<and> pos_column p \<le> pos_column q)"

definition loc_ok :: "nat \<Rightarrow> loc \<Rightarrow> bool" where
  \<comment> \<open>the location invariant for an input of \<open>n\<close> lines\<close>
  "loc_ok n l \<longleftrightarrow> pos_le (loc_start l) (loc_end l) \<and> pos_line (loc_end l) \<le> n"

fun inline_loc :: "inline \<Rightarrow> loc" where
  "inline_loc (Text v l) = l"
| "inline_loc (InlineCode c l) = l"
| "inline_loc (InlineLabel identifier t l) = l"
| "inline_loc (InlineComment t l) = l"

definition inline_ok :: "nat \<Rightarrow> inline \<Rightarrow> bool" where
  "inline_ok n x \<longleftrightarrow> loc_ok n (inline_loc x)"

fun row_ok :: "nat \<Rightarrow> table_row \<Rightarrow> bool" where
  "row_ok n (TableRow cells (Some l)) = loc_ok n l"
| "row_ok n (TableRow cells None) = False"

fun item_ok :: "nat \<Rightarrow> bullet_item \<Rightarrow> bool" where
  "item_ok n (BulletItem marker inl cont l) = (loc_ok n l \<and> list_all (inline_ok n) inl)"

fun block_ok :: "nat \<Rightarrow> block \<Rightarrow> bool" where
  "block_ok n (BlankLine l) = loc_ok n l"
| "block_ok n (WholeLineComment t l) = loc_ok n l"
| "block_ok n (FencedCodeBlock info indent content l) = loc_ok n l"
| "block_ok n (Table header_row align_row data_rows l) =
     (loc_ok n l \<and> row_ok n header_row
      \<and> (case align_row of Some r \<Rightarrow> row_ok n r | None \<Rightarrow> True)
      \<and> list_all (row_ok n) data_rows)"
| "block_ok n (Section num title desc lvl sb l) = (loc_ok n l \<and> list_all (block_ok n) sb)"
| "block_ok n (BulletList items l) = (loc_ok n l \<and> list_all (item_ok n) items)"
| "block_ok n (Paragraph inl l) = (loc_ok n l \<and> list_all (inline_ok n) inl)"

fun header_ok :: "nat \<Rightarrow> header \<Rightarrow> bool" where
  "header_ok n (Header tag t l) = loc_ok n l"

fun metadata_ok :: "nat \<Rightarrow> metadata_entry \<Rightarrow> bool" where
  "metadata_ok n (MetadataEntry key val l) = loc_ok n l"

definition document_ok :: "nat \<Rightarrow> document \<Rightarrow> bool" where
  \<comment> \<open>every node of the document satisfies the location invariant\<close>
  "document_ok n doc \<longleftrightarrow>
     (case doc_header doc of Some h \<Rightarrow> header_ok n h | None \<Rightarrow> True)
     \<and> list_all (metadata_ok n) (doc_metadata doc)
     \<and> list_all (block_ok n) (doc_body doc)"

definition item_inv :: "nat \<Rightarrow> nat \<Rightarrow> bullet_item \<Rightarrow> bool" where
  \<comment> \<open>a bullet item that satisfies the location invariant and ends at or after line \<open>k\<close>\<close>
  "item_inv n k it \<longleftrightarrow> item_ok n it \<and> pos_le (Position k 1) (loc_end (item_loc it))"

fun valid_handle :: "nat list \<Rightarrow> block list \<Rightarrow> bool" where
  \<comment> \<open>the reference names the body of a section that is in the tree\<close>
  "valid_handle [] body = True"
| "valid_handle (i # p) body =
     (i < length body \<and>
      (case body ! i of Section num title desc lvl sb l \<Rightarrow> valid_handle p sb | _ \<Rightarrow> False))"

definition stack_valid :: "scan_state \<Rightarrow> bool" where
  "stack_valid st \<longleftrightarrow> list_all (\<lambda>e. valid_handle (handle e) (st_body st)) (st_stack st)"

definition top_handle :: "scan_state \<Rightarrow> nat list" where
  \<comment> \<open>the reference to the body that \<open>add_block\<close> appends to\<close>
  "top_handle st = (if st_stack st \<noteq> [] then handle (last (st_stack st)) else [])"

definition scan_start ::
  "string list \<Rightarrow> (header option \<times> metadata_entry list \<times> nat \<times> scan_state) option" where
  \<comment> \<open>\<open>parse_document\<close> up to the body loop: the header, the metadata, the index of the
      first body line and the state the body loop starts in\<close>
  "scan_start lines =
     (case first_non_blank lines 0 of
        None \<Rightarrow> None
      | Some idx \<Rightarrow>
          (case strip_illegal_inline_comment (lines ! idx) (idx + 1) [] of
             (header_line, diagnostics1) \<Rightarrow>
               (case parse_header header_line (idx + 1) diagnostics1 of
                  (header, diagnostics2) \<Rightarrow>
                    (case metadata_loop lines (idx + 1) [] diagnostics2 of
                       (idx2, metadata, diagnostics3) \<Rightarrow>
                         Some (header, metadata, idx2,
                               \<lparr>st_body = [], st_stack = [], st_diagnostics = diagnostics3\<rparr>)))))"

inductive reached :: "string list \<Rightarrow> nat \<Rightarrow> scan_state \<Rightarrow> bool" for lines where
  \<comment> \<open>the cursor and state at the head of a turn of the body loop of \<open>parse_document\<close>\<close>
  start: "scan_start lines = Some (header, metadata, idx2, st0) \<Longrightarrow> reached lines idx2 st0"
| step: "reached lines idx st \<Longrightarrow> idx < length lines \<Longrightarrow> body_step lines idx st = (idx1, st1)
           \<Longrightarrow> reached lines idx1 st1"

code_pred reached .

definition diagnostics_of :: "document \<Rightarrow> diagnostic list" where
  \<comment> \<open>the diagnostics of a document, empty when the key is absent\<close>
  "diagnostics_of doc = (case doc_diagnostics doc of Some ds \<Rightarrow> ds | None \<Rightarrow> [])"

fun leaves :: "block \<Rightarrow> block list" where
  \<comment> \<open>the blocks other than sections, at every depth, in document order\<close>
  "leaves (Section num title desc lvl sb l) = concat (map leaves sb)"
| "leaves b = [b]"

definition all_leaves :: "block list \<Rightarrow> block list" where
  \<comment> \<open>the blocks other than sections of a body, at every depth\<close>
  "all_leaves body = concat (map leaves body)"

definition unterminated_block :: "string list \<Rightarrow> nat \<Rightarrow> string \<Rightarrow> string \<Rightarrow> block" where
  \<comment> \<open>the block of a fence opened at index \<open>idx\<close> with the groups \<open>g1\<close> and \<open>g2\<close> and never
      closed: its content is every line after the opening line\<close>
  "unterminated_block lines idx g1 g2 =
     FencedCodeBlock (if strip g2 \<noteq> [] then Some (strip g2) else None) (length g1)
       (drop (idx + 1) lines)
       (make_loc (idx + 1) 1 (Some (length lines))
          (Some (if drop (idx + 1) lines \<noteq> [] then length (last lines) + 1 else 1)))"

section \<open>Properties\<close>

subsection \<open>Empty input\<close>

lemma first_non_blank_all_blank:
  "\<forall>l \<in> set lines. strip l = [] \<Longrightarrow> first_non_blank lines i = None"
  by (induction lines arbitrary: i) simp_all

text \<open>
  C7. For every input whose lines are all blank, the zero-line input included,
  \<open>parse_document\<close> returns the document with no header, no metadata, an empty body and
  exactly one diagnostic, the error \<open>EMPTY\<close> at line 1, column 1: the header, metadata
  and body scanners are not run.
\<close>

theorem blank_input_gives_empty_document:
  assumes "\<forall>l \<in> set lines. strip l = []"
  shows "parse_document lines = empty_document"
  using first_non_blank_all_blank [OF assms, of 0]
  by (simp add: parse_document_def empty_document_def)

theorem blank_input_gives_empty_document_witness:
  "strip '''' = [] \<and> strip ''   '' = [] \<and> strip [CHR 0x09] = []
   \<and> parse_document ['''', ''   '', [CHR 0x09]] = empty_document
   \<and> parse_document [] = empty_document"
proof -
  have b: "strip '''' = []" "strip ''   '' = []" "strip [CHR 0x09] = []"
    by (simp_all add: strip_def lstrip_def rstrip_def is_space_def in_range_def)
  then have h: "\<forall>l \<in> set ['''', ''   '', [CHR 0x09]]. strip l = []" by simp
  have e: "\<forall>l \<in> set ([] :: string list). strip l = []" by simp
  from b blank_input_gives_empty_document [OF h] blank_input_gives_empty_document [OF e]
  show ?thesis by simp
qed

subsection \<open>Inline lexer\<close>

text \<open>
  C2, as the specification states it: the line
  \<open>intent: refactor module auth: tighten validation\<close> lexes to two labels whose text
  fields are \<open>refactor module\<close> and \<open>tighten validation\<close>. The lexer keeps every character
  between the colon and the next label, so the fields differ from these.
\<close>

theorem label_text_trimmed_counterexample:
  "map label_fields (parse_inline ''intent: refactor module auth: tighten validation'' True 1 1)
     \<noteq> [Some (''intent'', Some ''refactor module''), Some (''auth'', Some ''tighten validation'')]"
  by code_simp

text \<open>
  C2, amended. Lexed as a paragraph line (inline comments allowed, first column 1), the
  line gives exactly two nodes, both labels: \<open>intent\<close> with the text field
  \<open>" refactor module "\<close> and \<open>auth\<close> with the text field \<open>" tighten validation"\<close>, the
  spaces around the text kept; no \<open>Text\<close> node comes before the first label.
\<close>

theorem two_labels_with_untrimmed_text:
  "parse_inline ''intent: refactor module auth: tighten validation'' True line_no 1 =
     [InlineLabel ''intent'' (Some '' refactor module '')
        (Loc (Position line_no 1) (Position line_no 25)),
      InlineLabel ''auth'' (Some '' tighten validation'')
        (Loc (Position line_no 25) (Position line_no 49))]"
  by code_simp

text \<open>
  C5. The line \<open>`i#notacomment`\<close>, lexed with inline comments allowed, gives exactly one
  node, the code span \<open>i#notacomment\<close>, and no \<open>InlineComment\<close>: the marker \<open>i#\<close> inside
  backticks is not a split point.
\<close>

theorem comment_marker_inside_code_span:
  "parse_inline ''`i#notacomment`'' True line_no start_col =
     [InlineCode ''i#notacomment''
        (Loc (Position line_no (start_col + 1)) (Position line_no (start_col + 14)))]"
  by code_simp

subsection \<open>Section recovery\<close>

text \<open>
  C1. For the headings \<open>1 OVERVIEW\<close>, \<open>1.2.1 DEEP\<close> (no heading \<open>1.2\<close> before it) and
  \<open>1.2.1.1 DEEPER\<close>, the section \<open>[1,2,1]\<close> is a child of the document root and not of
  section \<open>[1]\<close>, whose body stays empty; there is exactly one diagnostic, the warning
  \<open>SECTION_PARENT_MISSING\<close> that names \<open>1.2\<close>; the section \<open>[1,2,1]\<close> is pushed on the
  stack of open sections all the same, above section \<open>[1]\<close>; and \<open>1.2.1.1 DEEPER\<close> is a
  child of section \<open>[1,2,1]\<close>. The first conjunct is the whole document after a header
  line, the second the scanner state after the first two headings.
\<close>

theorem section_parent_missing_recovery:
  "parse_document [''DOC: x'', ''1 OVERVIEW'', ''1.2.1 DEEP'', ''1.2.1.1 DEEPER''] =
     \<lparr>doc_header = Some (Header ''DOC'' ''x'' (Loc (Position 1 1) (Position 1 7))),
      doc_metadata = [],
      doc_body =
        [Section [1] ''OVERVIEW'' None 1 [] (Loc (Position 2 1) (Position 2 11)),
         Section [1, 2, 1] ''DEEP'' None 3
           [Section [1, 2, 1, 1] ''DEEPER'' None 4 [] (Loc (Position 4 1) (Position 4 15))]
           (Loc (Position 3 1) (Position 3 11))],
      doc_diagnostics =
        Some [\<lparr>severity = Warning,
                message = ''Missing parent section 1.2; attached to document root.'',
                diag_loc = Position 3 1, diag_code = SECTION_PARENT_MISSING\<rparr>]\<rparr>
   \<and> parse_body [''DOC: x'', ''1 OVERVIEW'', ''1.2.1 DEEP''] 1
       \<lparr>st_body = [], st_stack = [], st_diagnostics = []\<rparr> =
     \<lparr>st_body =
        [Section [1] ''OVERVIEW'' None 1 [] (Loc (Position 2 1) (Position 2 11)),
         Section [1, 2, 1] ''DEEP'' None 3 [] (Loc (Position 3 1) (Position 3 11))],
      st_stack = [OpenSection [0] [1], OpenSection [1] [1, 2, 1]],
      st_diagnostics =
        [\<lparr>severity = Warning,
           message = ''Missing parent section 1.2; attached to document root.'',
           diag_loc = Position 3 1, diag_code = SECTION_PARENT_MISSING\<rparr>]\<rparr>"
  by code_simp

subsection \<open>Tables\<close>

lemma split_on_not_Nil: "split_on c s \<noteq> []"
  by (induction s) (auto split: list.splits)

lemma split_on_no_sep: "c \<notin> set s \<Longrightarrow> split_on c s = [s]"
  by (induction s) auto

lemma split_on_append_sep: "split_on c (pre @ c # suf) = split_on c pre @ split_on c suf"
proof (induction pre)
  case Nil
  show ?case by simp
next
  case (Cons x pre)
  then show ?case
    by (cases "split_on c pre") (auto simp: split_on_not_Nil)
qed

lemma find_sub_Some:
  "find_sub p s i = Some k \<Longrightarrow> i \<le> k \<and> starts_with p (drop (k - i) s)
     \<and> (\<forall>j < k - i. \<not> starts_with p (drop j s))"
proof (induction s arbitrary: i)
  case Nil
  then show ?case by (auto split: if_splits)
next
  case (Cons c s)
  show ?case
  proof (cases "starts_with p (c # s)")
    case True
    with Cons.prems show ?thesis by simp
  next
    case False
    with Cons.prems have "find_sub p s (Suc i) = Some k" by simp
    from Cons.IH [OF this] have k: "Suc i \<le> k" "starts_with p (drop (k - Suc i) s)"
      "\<forall>j < k - Suc i. \<not> starts_with p (drop j s)" by simp_all
    from k(1) have e: "k - i = Suc (k - Suc i)" by simp
    have "\<not> starts_with p (drop j (c # s))" if "j < k - i" for j
    proof (cases j)
      case 0
      with False show ?thesis by simp
    next
      case (Suc j')
      with that e have "j' < k - Suc i" by simp
      with k(3) Suc show ?thesis by simp
    qed
    with k e show ?thesis by simp
  qed
qed

lemma table_rows_loop_eq:
  "table_rows_loop rows idx start_line parsed diagnostics =
     (parsed @ map (\<lambda>(j, row). TableRow (row_cells row)
          (Some (make_loc (start_line + j) 1 (Some (start_line + j)) (Some (length (rstrip row) + 1)))))
        (enumerate idx rows),
      diagnostics @ concat (map (\<lambda>(j, row).
          case find_sub fence_marker row 0 of
            Some k \<Rightarrow> [fence_in_table_diag (start_line + j) (k + 1)] | None \<Rightarrow> [])
        (enumerate idx rows)))"
proof (induction rows arbitrary: idx parsed diagnostics)
  case Nil
  show ?case by simp
next
  case (Cons row rows)
  show ?case
    by (simp add: Cons.IH fence_in_table_diag_def split: option.splits)
qed

lemma pipe_not_space: "\<not> is_space CHR ''|''"
  by (simp add: is_space_def in_range_def)

lemma backtick_not_space: "\<not> is_space (CHR 0x60)"
  by (simp add: is_space_def in_range_def)

lemma starts_with_Cons: "starts_with (p # ps) s \<longleftrightarrow> (\<exists>t. s = p # t \<and> starts_with ps t)"
  by (cases s) auto

lemma table_match_head: "table_match l \<longleftrightarrow> (\<exists>t. dropWhile is_space l = CHR ''|'' # t)"
  by (simp add: table_match_def starts_with_Cons)

lemma in_dropWhile: "\<not> P x \<Longrightarrow> x \<in> set xs \<Longrightarrow> x \<in> set (dropWhile P xs)"
  by (induction xs) auto

lemma table_match_not_blank: "table_match l \<Longrightarrow> strip l \<noteq> []"
proof -
  assume "table_match l"
  then obtain t where t: "dropWhile is_space l = CHR ''|'' # t" by (auto simp: table_match_head)
  then have "CHR ''|'' \<in> set (rev (lstrip l))" by (simp add: lstrip_def)
  from in_dropWhile [of is_space, OF pipe_not_space this] have "CHR ''|'' \<in> set (strip l)"
    by (simp add: strip_def rstrip_def)
  then show ?thesis by auto
qed

lemma table_match_has_pipe: "table_match l \<Longrightarrow> CHR ''|'' \<in> set (strip l)"
proof -
  assume "table_match l"
  then obtain t where t: "dropWhile is_space l = CHR ''|'' # t" by (auto simp: table_match_head)
  then have "CHR ''|'' \<in> set (rev (lstrip l))" by (simp add: lstrip_def)
  from in_dropWhile [of is_space, OF pipe_not_space this] show ?thesis
    by (simp add: strip_def rstrip_def)
qed

lemma table_match_not_fence: "table_match l \<Longrightarrow> fence_match l = None"
  by (auto simp: table_match_head fence_match_def Let_def)

lemma parse_table_eq:
  "parse_table rows diagnostics start_line =
     (let parsed_rows = map (\<lambda>(j, row). TableRow (row_cells row)
            (Some (make_loc (start_line + j) 1 (Some (start_line + j)) (Some (length (rstrip row) + 1)))))
          (enumerate 0 rows)
      in (Table (case parsed_rows of r # _ \<Rightarrow> r | [] \<Rightarrow> TableRow [] None)
            (if length parsed_rows > 1 then Some (parsed_rows ! 1) else None)
            (if length parsed_rows > 2 then drop 2 parsed_rows else [])
            (make_loc start_line 1
               (Some (if rows \<noteq> [] then start_line + length rows - 1 else start_line))
               (Some (if rows \<noteq> [] then length (rstrip (last rows)) + 1 else 1))),
          diagnostics @ concat (map (\<lambda>(j, row).
              case find_sub fence_marker row 0 of
                Some k \<Rightarrow> [fence_in_table_diag (start_line + j) (k + 1)] | None \<Rightarrow> [])
            (enumerate 0 rows))))"
  by (simp add: parse_table_def table_rows_loop_eq Let_def)

lemma table_rows_of_three:
  "xs \<noteq> [] \<Longrightarrow>
   table_rows_of (Table (case xs of r # _ \<Rightarrow> r | [] \<Rightarrow> TableRow [] None)
            (if length xs > 1 then Some (xs ! 1) else None)
            (if length xs > 2 then drop 2 xs else []) l) = xs"
proof (cases xs)
  case Nil
  assume "xs \<noteq> []"
  with Nil show ?thesis by simp
next
  case (Cons a ys)
  show ?thesis
  proof (cases ys)
    case Nil
    with Cons show ?thesis by simp
  next
    case (Cons b zs)
    with \<open>xs = a # ys\<close> show ?thesis by (cases zs) simp_all
  qed
qed

lemma parse_table_cells:
  assumes "rows \<noteq> []"
  shows "map row_cells_of (table_rows_of (fst (parse_table rows diagnostics start_line)))
           = map row_cells rows"
proof -
  let ?f = "\<lambda>(j, row). TableRow (row_cells row)
            (Some (make_loc (start_line + j) 1 (Some (start_line + j)) (Some (length (rstrip row) + 1))))"
  from assms have ne: "map ?f (enumerate 0 rows) \<noteq> []" by (simp add: enumerate_eq_zip)
  have "row_cells_of \<circ> ?f = row_cells \<circ> snd" by (auto simp: fun_eq_iff)
  then have "map row_cells_of (map ?f (enumerate 0 rows)) = map row_cells (map snd (enumerate 0 rows))"
    by (simp only: map_map)
  then have m: "map row_cells_of (map ?f (enumerate 0 rows)) = map row_cells rows"
    by (simp only: map_snd_enumerate)
  show ?thesis
    unfolding parse_table_eq Let_def fst_conv table_rows_of_three [OF ne] by (rule m)
qed

lemma parse_table_fence_diag:
  assumes "i < length rows" and "find_sub fence_marker (rows ! i) 0 = Some k"
  shows "fence_in_table_diag (start_line + i) (k + 1)
           \<in> set (snd (parse_table rows diagnostics start_line))"
proof -
  from assms(1) have "(i, rows ! i) \<in> set (enumerate 0 rows)"
    by (simp add: in_set_enumerate_eq)
  with assms(2) show ?thesis
    unfolding parse_table_eq Let_def snd_conv by force
qed

lemma parse_table_only_fence_diags:
  "filter (\<lambda>d. diag_code d \<noteq> FENCE_IN_TABLE) (snd (parse_table rows diagnostics start_line))
     = filter (\<lambda>d. diag_code d \<noteq> FENCE_IN_TABLE) diagnostics"
proof -
  have "filter (\<lambda>d. diag_code d \<noteq> FENCE_IN_TABLE) (concat (map (\<lambda>(j, row).
              case find_sub fence_marker row 0 of
                Some k \<Rightarrow> [fence_in_table_diag (start_line + j) (k + 1)] | None \<Rightarrow> []) xs)) = []"
    for xs :: "(nat \<times> string) list"
    by (induction xs) (auto simp: fence_in_table_diag_def split: option.splits)
  then show ?thesis
    unfolding parse_table_eq Let_def snd_conv by simp
qed

lemma table_step_eq:
  "table_step lines idx st =
     (idx + length (collected_rows lines idx),
      st\<lparr>st_body := add_block (st_body st) (st_stack st)
            (fst (parse_table (collected_rows lines idx) (st_diagnostics st) (idx + 1))),
         st_diagnostics := snd (parse_table (collected_rows lines idx) (st_diagnostics st) (idx + 1))\<rparr>)"
  by (simp add: table_step_def table_loop_eq collected_rows_def split: prod.splits)

lemma body_step_table:
  assumes "table_match (lines ! idx)"
  shows "body_step lines idx st = table_step lines idx st"
  using assms table_match_not_blank [OF assms] table_match_not_fence [OF assms]
  by (simp add: body_step_def Let_def)

text \<open>
  C10. For every collected table row (a line that \<open>TABLE_RE\<close> matches) whose stripped
  text does not end with a pipe, the stripped text is \<open>pre | suf\<close> with \<open>suf\<close> the
  non-empty text after the last pipe, and the cells are those of \<open>pre\<close> alone: \<open>suf\<close> is
  dropped. No diagnostic reports it: the only diagnostics \<open>parse_table\<close> adds have the code
  \<open>FENCE_IN_TABLE\<close>. The row \<open>| a | b\<close> gives the cells \<open>[a]\<close> and no diagnostic.
\<close>

theorem text_after_last_pipe_is_dropped:
  assumes "table_match row" and "last (strip row) \<noteq> CHR ''|''"
  shows "(\<exists>pre suf. strip row = pre @ CHR ''|'' # suf \<and> suf \<noteq> [] \<and> CHR ''|'' \<notin> set suf
            \<and> row_cells row = map strip (tl (split_on CHR ''|'' pre)))
    \<and> filter (\<lambda>d. diag_code d \<noteq> FENCE_IN_TABLE) (snd (parse_table rows diagnostics start_line))
        = filter (\<lambda>d. diag_code d \<noteq> FENCE_IN_TABLE) diagnostics
    \<and> row_cells ''| a | b'' = [''a'']
    \<and> snd (parse_table [''| a | b''] diagnostics start_line) = diagnostics"
proof -
  from split_list_last [OF table_match_has_pipe [OF assms(1)]]
  obtain pre suf where d: "strip row = pre @ CHR ''|'' # suf" "CHR ''|'' \<notin> set suf" by blast
  from d(1) assms(2) have ne: "suf \<noteq> []" by auto
  have "split_on CHR ''|'' (strip row) = split_on CHR ''|'' pre @ [suf]"
    unfolding d(1) by (simp add: split_on_append_sep split_on_no_sep [OF d(2)])
  then have "butlast (tl (split_on CHR ''|'' (strip row))) = tl (split_on CHR ''|'' pre)"
    by (cases "split_on CHR ''|'' pre") (simp_all add: split_on_not_Nil)
  then have c: "row_cells row = map strip (tl (split_on CHR ''|'' pre))"
    by (simp add: row_cells_def)
  have e: "row_cells ''| a | b'' = [''a'']" by code_simp
  have g: "snd (parse_table [''| a | b''] diagnostics start_line) = diagnostics"
    by (simp add: parse_table_def fence_marker_def)
  from d ne c e g parse_table_only_fence_diags show ?thesis by blast
qed

theorem text_after_last_pipe_is_dropped_witness:
  "table_match ''| a | b'' \<and> last (strip ''| a | b'') \<noteq> CHR ''|''
   \<and> row_cells ''| a | b'' = [''a'']
   \<and> parse_table [''| a | b''] [] 1 =
       (Table (TableRow [''a''] (Some (Loc (Position 1 1) (Position 1 8)))) None []
          (Loc (Position 1 1) (Position 1 8)), [])"
proof -
  have h1: "table_match ''| a | b''" by code_simp
  have h2: "last (strip ''| a | b'') \<noteq> CHR ''|''" by code_simp
  have t: "parse_table [''| a | b''] [] 1 =
       (Table (TableRow [''a''] (Some (Loc (Position 1 1) (Position 1 8)))) None []
          (Loc (Position 1 1) (Position 1 8)), [])" by code_simp
  from text_after_last_pipe_is_dropped [OF h1 h2, of "[]" "[]" 1] h1 h2 t
  show ?thesis by simp
qed

subsection \<open>Fenced blocks\<close>

lemma starts_with_iff: "starts_with p l \<longleftrightarrow> (\<exists>t. l = p @ t)"
  by (induction p l rule: starts_with.induct) auto

lemma space_is_space: "is_space CHR '' ''"
  by (simp add: is_space_def in_range_def)

lemma lstrip_indent_marker:
  "lstrip (replicate k CHR '' '' @ fence_marker @ t) = fence_marker @ t"
proof -
  have "dropWhile is_space (replicate k CHR '' '' @ fence_marker @ t) = dropWhile is_space (fence_marker @ t)"
    by (simp add: dropWhile_append3 dropWhile_append space_is_space)
  then show ?thesis by (simp add: lstrip_def fence_marker_def backtick_not_space)
qed

lemma rstrip_marker_tail:
  "rstrip (fence_marker @ t) = fence_marker \<longleftrightarrow> list_all is_space t"
proof
  assume a: "list_all is_space t"
  then have "dropWhile is_space (rev t @ rev fence_marker) = dropWhile is_space (rev fence_marker)"
    by (simp add: dropWhile_append list_all_iff)
  then show "rstrip (fence_marker @ t) = fence_marker"
    by (simp add: rstrip_def fence_marker_def backtick_not_space)
next
  assume r: "rstrip (fence_marker @ t) = fence_marker"
  show "list_all is_space t"
  proof (rule ccontr)
    assume "\<not> list_all is_space t"
    then have n: "\<not> (\<forall>x \<in> set (rev t). is_space x)" by (simp add: list_all_iff)
    then have "dropWhile is_space (rev t @ rev fence_marker) = dropWhile is_space (rev t) @ rev fence_marker"
      by (auto simp: dropWhile_append)
    moreover from n have "dropWhile is_space (rev t) \<noteq> []" by (simp add: dropWhile_eq_Nil_conv)
    ultimately have "length (rstrip (fence_marker @ t)) > length fence_marker"
      by (simp add: rstrip_def)
    with r show False by simp
  qed
qed

lemma fence_closes_iff:
  "fence_closes k l \<longleftrightarrow>
     (\<exists>ws. l = replicate k CHR '' '' @ fence_marker @ ws \<and> list_all is_space ws)"
  by (auto simp: fence_closes_def starts_with_iff strip_def lstrip_indent_marker rstrip_marker_tail)

lemma strip_all_space: "list_all is_space s \<Longrightarrow> strip s = []"
proof -
  assume "list_all is_space s"
  then have d: "dropWhile is_space s = []" by (induction s) auto
  show ?thesis unfolding strip_def lstrip_def rstrip_def d by simp
qed

lemma fence_loop_eq:
  "fence_loop k ls idx content =
     (let pre = takeWhile (\<lambda>l. \<not> fence_closes k l) ls in
      if length pre < length ls
      then (idx + length pre + 1, content @ pre, True, ls ! length pre)
      else (idx + length ls, content @ ls, False, []))"
proof (induction ls arbitrary: idx content)
  case Nil
  show ?case by simp
next
  case (Cons l ls)
  show ?case
  proof (cases "fence_closes k l")
    case True
    then show ?thesis by simp
  next
    case False
    then show ?thesis
      using Cons.IH [of "idx + 1" "content @ [l]"] by (simp add: Let_def)
  qed
qed

text \<open>
  C4. With the indentation width \<open>k\<close> recorded at the opening line, a line closes the
  fence if and only if it is exactly \<open>k\<close> spaces, the fence marker, and then nothing but
  whitespace, which is to say that it starts with \<open>k\<close> spaces and the marker and that its
  trimmed text is the bare marker. A line of \<open>k\<close> spaces and the marker followed by an
  info string (text that is not blank) does not close it. The loop captures, verbatim and
  in order, every line before the first closing line, or every remaining line when no
  line closes the fence.
\<close>

theorem fence_closing_line:
  "(fence_closes k l \<longleftrightarrow>
      (\<exists>ws. l = replicate k CHR '' '' @ fence_marker @ ws \<and> list_all is_space ws))
   \<and> (strip info \<noteq> [] \<longrightarrow> \<not> fence_closes k (replicate k CHR '' '' @ fence_marker @ info))
   \<and> fence_loop k ls idx content =
       (let pre = takeWhile (\<lambda>l. \<not> fence_closes k l) ls in
        if length pre < length ls
        then (idx + length pre + 1, content @ pre, True, ls ! length pre)
        else (idx + length ls, content @ ls, False, []))"
proof -
  have "\<not> fence_closes k (replicate k CHR '' '' @ fence_marker @ info)" if "strip info \<noteq> []"
  proof
    assume "fence_closes k (replicate k CHR '' '' @ fence_marker @ info)"
    then have "list_all is_space info" by (auto simp: fence_closes_iff)
    with that strip_all_space show False by blast
  qed
  with fence_closes_iff [of k l] fence_loop_eq [of k ls idx content] show ?thesis by blast
qed

theorem fence_closing_line_witness:
  "strip ''python'' \<noteq> []
   \<and> fence_closes 2 ''  ```'' \<and> fence_closes 2 ''  ```  ''
   \<and> \<not> fence_closes 2 ''  ```python''
   \<and> \<not> fence_closes 2 '' ```'' \<and> \<not> fence_closes 2 ''   ```''
   \<and> fence_loop 2 [''a'', ''  ```python'', ''  ```'', ''b''] 5 []
       = (8, [''a'', ''  ```python''], True, ''  ```'')"
proof -
  have h: "strip ''python'' \<noteq> []" by code_simp
  have c: "fence_closes 2 ''  ```''" "fence_closes 2 ''  ```  ''"
    "\<not> fence_closes 2 '' ```''" "\<not> fence_closes 2 ''   ```''" "\<not> fence_closes 2 ''a''"
    by code_simp+
  have e: "replicate 2 CHR '' '' @ fence_marker @ ''python'' = ''  ```python''"
    by (simp add: fence_marker_def numeral_2_eq_2)
  note t = fence_closing_line [of 2 "''a''" "''python''" "[''a'', ''  ```python'', ''  ```'', ''b'']" 5 "[]"]
  from t h have n: "\<not> fence_closes 2 ''  ```python''" unfolding e by blast
  from t have "fence_loop 2 [''a'', ''  ```python'', ''  ```'', ''b''] 5 []
       = (8, [''a'', ''  ```python''], True, ''  ```'')"
    by (simp add: c n)
  with h c n show ?thesis by simp
qed


lemma fence_match_head:
  "fence_match l = Some (g1, g2) \<Longrightarrow> \<exists>t. dropWhile is_space l = fence_marker @ t"
  by (auto simp: fence_match_def Let_def fence_marker_def starts_with_iff split: if_splits option.splits)

lemma fence_match_not_blank:
  assumes "fence_match l = Some (g1, g2)"
  shows "strip l \<noteq> []"
proof -
  from fence_match_head [OF assms] obtain t where "dropWhile is_space l = fence_marker @ t" by blast
  then have "CHR 0x60 \<in> set (rev (lstrip l))" by (simp add: lstrip_def fence_marker_def)
  from in_dropWhile [of is_space, OF backtick_not_space this] have "CHR 0x60 \<in> set (strip l)"
    by (simp add: strip_def rstrip_def)
  then show ?thesis by auto
qed

lemma fenced_block_step_unterminated:
  assumes "idx < length lines"
    and "\<forall>l \<in> set (drop (idx + 1) lines). \<not> fence_closes (length g1) l"
  shows "fenced_block_step lines idx g1 g2 st =
     (length lines,
      st\<lparr>st_body := add_block (st_body st) (st_stack st)
            (FencedCodeBlock (if strip g2 \<noteq> [] then Some (strip g2) else None) (length g1)
               (drop (idx + 1) lines)
               (make_loc (idx + 1) 1 (Some (length lines))
                  (Some (if drop (idx + 1) lines \<noteq> [] then length (last lines) + 1 else 1)))),
         st_diagnostics := st_diagnostics st @ [fence_unterminated_diag (length lines)]\<rparr>)"
proof -
  let ?rest = "drop (Suc idx) lines"
  from assms(2) have t: "takeWhile (\<lambda>l. \<not> fence_closes (length g1) l) ?rest = ?rest"
    by (simp add: takeWhile_eq_all_conv)
  from assms(1) have n: "Suc (idx + length ?rest) = length lines" by simp
  have f: "fence_loop (length g1) ?rest (Suc idx) [] = (length lines, ?rest, False, [])"
    unfolding fence_loop_eq Let_def t using n by (simp del: length_drop)
  show ?thesis
  proof (cases "?rest = []")
    case True
    with n have "Suc idx = length lines" by simp
    with True f show ?thesis
      by (simp add: fenced_block_step_def Let_def fence_unterminated_diag_def del: length_drop drop_eq_Nil)
  next
    case False
    then have "last ?rest = last lines" by (simp add: last_drop)
    with False f n show ?thesis
      by (simp add: fenced_block_step_def Let_def fence_unterminated_diag_def del: length_drop drop_eq_Nil)
  qed
qed

lemma parse_body_done: "length lines \<le> idx \<Longrightarrow> parse_body lines idx st = st"
  by (simp add: parse_body.simps [of lines idx st])

lemma parse_body_unterminated:
  assumes "idx < length lines" and "fence_match (lines ! idx) = Some (g1, g2)"
    and "\<forall>l \<in> set (drop (idx + 1) lines). \<not> fence_closes (length g1) l"
  shows "parse_body lines idx st =
     st\<lparr>st_body := add_block (st_body st) (st_stack st)
           (FencedCodeBlock (if strip g2 \<noteq> [] then Some (strip g2) else None) (length g1)
              (drop (idx + 1) lines)
              (make_loc (idx + 1) 1 (Some (length lines))
                 (Some (if drop (idx + 1) lines \<noteq> [] then length (last lines) + 1 else 1)))),
        st_diagnostics := st_diagnostics st @ [fence_unterminated_diag (length lines)]\<rparr>"
proof -
  from fence_match_not_blank [OF assms(2)] assms(2)
  have "body_step lines idx st = fenced_block_step lines idx g1 g2 st"
    by (simp add: body_step_def Let_def)
  then show ?thesis
    unfolding parse_body.simps [of lines idx st] fenced_block_step_unterminated [OF assms(1,3)]
    using assms(1) by (simp add: parse_body_done)
qed

lemma unterminated_python_document:
  assumes "\<forall>l \<in> set rest. \<not> fence_closes 0 l"
  shows "parse_document (''DOC: x'' # ''```python'' # rest) =
     \<lparr>doc_header = Some (Header ''DOC'' ''x'' (Loc (Position 1 1) (Position 1 7))),
      doc_metadata = [],
      doc_body =
        [FencedCodeBlock (Some ''python'') 0 rest
           (Loc (Position 2 1)
              (Position (length rest + 2) (if rest \<noteq> [] then length (last rest) + 1 else 1)))],
      doc_diagnostics = Some [fence_unterminated_diag (length rest + 2)]\<rparr>"
proof -
  let ?L = "''DOC: x'' # ''```python'' # rest"
  let ?st0 = "\<lparr>st_body = [], st_stack = [], st_diagnostics = []\<rparr>"
  have h1: "strip ''DOC: x'' \<noteq> []" by code_simp
  have h2: "strip_illegal_inline_comment ''DOC: x'' (Suc 0) [] = (''DOC: x'', [])" by code_simp
  have h3: "parse_header ''DOC: x'' (Suc 0) [] =
      (Some (Header ''DOC'' ''x'' (Loc (Position 1 1) (Position 1 7))), [])" by code_simp
  have h4: "strip ''```python'' \<noteq> []" "metadata_match ''```python'' = None"
    "fence_match ''```python'' = Some ([], ''python'')" "strip ''python'' = ''python''"
    by code_simp+
  have m: "metadata_loop ?L (Suc 0) [] [] = (Suc 0, [], [])"
    by (simp add: metadata_loop.simps [of ?L "Suc 0" "[]" "[]"] h4)
  have i: "Suc 0 < length ?L" by simp
  have f: "fence_match (?L ! Suc 0) = Some ([], ''python'')" by (simp add: h4)
  from assms have c: "\<forall>l \<in> set (drop (Suc 0 + 1) ?L). \<not> fence_closes (length ([] :: string)) l"
    by simp
  have b: "parse_body ?L (Suc 0) ?st0 =
     \<lparr>st_body = [FencedCodeBlock (Some ''python'') 0 rest
           (Loc (Position 2 1)
              (Position (length rest + 2) (if rest \<noteq> [] then length (last rest) + 1 else 1)))],
      st_stack = [],
      st_diagnostics = [fence_unterminated_diag (length rest + 2)]\<rparr>"
    unfolding parse_body_unterminated [OF i f c, of ?st0]
    by (simp add: h4 add_block_def make_loc_def)
  show ?thesis
    unfolding parse_document_def
    by (simp add: h1 h2 h3 m b)
qed


text \<open>
  C3, as the specification states it: the error \<open>FENCE_UNTERMINATED\<close> is anchored at the
  line following the last captured content line, for every document with an unclosed
  fence-opening line. In the first document below the last captured content line is
  line 4, the last line of the input, and the error is at line 4, not at line 5. In the
  second the fence-opening line is the first non-blank line: it is consumed as the header
  line, and there is neither a \<open>FencedCodeBlock\<close> nor a \<open>FENCE_UNTERMINATED\<close> error.
\<close>

theorem fence_unterminated_anchor_counterexample:
  "doc_diagnostics (parse_document [''DOC: x'', ''```python'', ''a'', ''b''])
     = Some [fence_unterminated_diag 4]
   \<and> doc_diagnostics (parse_document [''DOC: x'', ''```python'', ''a'', ''b''])
     \<noteq> Some [fence_unterminated_diag 5]
   \<and> parse_document [''```python'', ''a''] =
       \<lparr>doc_header = None, doc_metadata = [],
        doc_body = [Paragraph [Text ''a'' (Loc (Position 2 1) (Position 2 2))]
                      (Loc (Position 2 1) (Position 2 2))],
        doc_diagnostics = Some [\<lparr>severity = Error, message = ''Invalid or missing header line'',
           diag_loc = Position 1 1, diag_code = HEADER_INVALID\<rparr>]\<rparr>"
  by code_simp

subsection \<open>Unmatched backticks\<close>

lemma parse_labels_loop_None:
  "label_search s pos = None \<Longrightarrow>
   parse_labels_loop s out line_no base_col pos =
     (if drop pos s \<noteq> []
      then out @ [Text (drop pos s)
              (make_loc line_no (base_col + pos) (Some line_no) (Some (base_col + length s)))]
      else out)"
  by (simp add: parse_labels_loop.simps [of s out line_no base_col pos])

lemma parse_labels_loop_Some:
  "label_search s pos = Some (m_start, m_end) \<Longrightarrow>
   parse_labels_loop s out line_no base_col pos =
     parse_labels_loop s
       ((if m_start > pos
         then out @ [Text (slice s pos m_start)
                (make_loc line_no (base_col + pos) (Some line_no) (Some (base_col + m_start)))]
         else out) @ [label_node s line_no base_col m_start m_end])
       line_no base_col (next_label_start s m_end)"
  by (simp add: parse_labels_loop.simps [of s out line_no base_col pos] Let_def
      label_node_def next_label_start_def)

lemma next_label_start_bounds:
  assumes "label_search s pos = Some (m_start, m_end)"
  shows "pos < next_label_start s m_end" and "next_label_start s m_end \<le> length s"
    and "m_end \<le> next_label_start s m_end"
proof -
  from label_next_bounds [OF assms] show "pos < next_label_start s m_end"
    and "next_label_start s m_end \<le> length s"
    by (simp_all add: next_label_start_def)
  show "m_end \<le> next_label_start s m_end"
  proof (cases "label_search s m_end")
    case None
    with label_search_bounds [OF assms] show ?thesis by (simp add: next_label_start_def)
  next
    case (Some q)
    obtain ns ne where q: "q = (ns, ne)" by (cases q)
    from Some q label_search_bounds(1) [of s m_end ns ne] show ?thesis
      by (simp add: next_label_start_def)
  qed
qed

lemma parse_labels_loop_acc:
  "parse_labels_loop s out line_no base_col pos = out @ parse_labels_loop s [] line_no base_col pos"
proof (induction "length s - pos" arbitrary: pos out rule: less_induct)
  case less
  show ?case
  proof (cases "label_search s pos")
    case None
    then show ?thesis by (simp add: parse_labels_loop_None)
  next
    case (Some q)
    obtain ms me where q: "q = (ms, me)" by (cases q)
    with Some have m: "label_search s pos = Some (ms, me)" by simp
    from next_label_start_bounds [OF m]
    have d: "length s - next_label_start s me < length s - pos" by linarith
    show ?thesis
      unfolding parse_labels_loop_Some [OF m]
      by (subst less [OF d], subst (2) less [OF d]) simp
  qed
qed

lemma parse_labels_loop_no_code:
  "list_all (\<lambda>n. \<not> is_inline_code n) (parse_labels_loop s [] line_no base_col pos)"
proof (induction "length s - pos" arbitrary: pos rule: less_induct)
  case less
  show ?case
  proof (cases "label_search s pos")
    case None
    then show ?thesis by (simp add: parse_labels_loop_None)
  next
    case (Some q)
    obtain ms me where q: "q = (ms, me)" by (cases q)
    with Some have m: "label_search s pos = Some (ms, me)" by simp
    from next_label_start_bounds [OF m]
    have d: "length s - next_label_start s me < length s - pos" by linarith
    show ?thesis
      unfolding parse_labels_loop_Some [OF m]
      by (subst parse_labels_loop_acc) (simp add: less [OF d] label_node_def)
  qed
qed


lemma starts_with_colon_nth:
  "starts_with '':'' (dropWhile P xs) \<Longrightarrow> xs ! length (takeWhile P xs) = CHR '':''"
proof -
  assume a: "starts_with '':'' (dropWhile P xs)"
  then obtain t where t: "dropWhile P xs = CHR '':'' # t" by (cases "dropWhile P xs") auto
  then have "dropWhile P xs \<noteq> []" by simp
  then have "length (takeWhile P xs) < length xs"
    by (metis length_takeWhile_le le_neq_implies_less takeWhile_dropWhile_id append_Nil2
        append_eq_conv_conj dropWhile_eq_drop drop_eq_Nil order_refl)
  then have "xs ! length (takeWhile P xs) = hd (dropWhile P xs)"
    by (simp add: hd_dropWhile dropWhile_eq_drop hd_drop_conv_nth)
  with t show ?thesis by simp
qed

lemma label_search_from_colon:
  "label_search_from s i = Some (ms, me) \<Longrightarrow> s ! (me - 1 - i) = CHR '':''"
proof (induction s arbitrary: i)
  case Nil
  then show ?case by simp
next
  case (Cons c s)
  show ?case
  proof (cases "label_match_at (c # s)")
    case None
    with Cons.prems have r: "label_search_from s (Suc i) = Some (ms, me)" by simp
    from label_search_from_bounds [OF r] have "Suc i < me" by simp
    then have "me - 1 - i = Suc (me - 1 - Suc i)" by simp
    with Cons.IH [OF r] show ?thesis by simp
  next
    case (Some m)
    with Cons.prems have eq: "ms = i" "me = i + m" by simp_all
    from Some have m: "m = length (takeWhile is_ident (c # s)) + 1"
      and colon: "starts_with '':'' (dropWhile is_ident (c # s))"
      by (auto simp: label_match_at_def Let_def split: if_splits)
    from eq m have "me - 1 - i = length (takeWhile is_ident (c # s))" by simp
    with starts_with_colon_nth [OF colon] show ?thesis by simp
  qed
qed

lemma label_search_colon:
  assumes "label_search s pos = Some (ms, me)"
  shows "s ! (me - 1) = CHR '':''"
proof -
  note b = label_search_bounds [OF assms]
  from assms have "drop pos s ! (me - 1 - pos) = CHR '':''"
    unfolding label_search_def by (rule label_search_from_colon)
  moreover from b have "pos + (me - 1 - pos) = me - 1" by simp
  moreover from b have "pos \<le> length s" by simp
  ultimately show ?thesis by (metis nth_drop)
qed

lemma slice_drop: "a \<le> b \<Longrightarrow> slice s a b @ drop b s = drop a s"
proof -
  assume "a \<le> b"
  then have "drop b s = drop (b - a) (drop a s)" by simp
  then show ?thesis unfolding slice_def by (metis append_take_drop_id)
qed

lemma label_node_source:
  assumes "label_search s pos = Some (ms, me)"
  shows "inline_source (label_node s line_no base_col ms me) @ drop (next_label_start s me) s
           = drop ms s"
proof -
  note b = label_search_bounds [OF assms] and n = next_label_start_bounds [OF assms]
  from b have lt: "me - 1 < length s" and suc: "Suc (me - 1) = me" and le: "ms \<le> me - 1" by simp_all
  have "inline_source (label_node s line_no base_col ms me)
          = slice s ms (me - 1) @ CHR '':'' # slice s me (next_label_start s me)"
    by (simp add: label_node_def)
  then have "inline_source (label_node s line_no base_col ms me) @ drop (next_label_start s me) s
          = slice s ms (me - 1) @ CHR '':'' # drop me s"
    by (simp add: slice_drop [OF n(3)])
  also have "CHR '':'' # drop me s = drop (me - 1) s"
    using Cons_nth_drop_Suc [OF lt] label_search_colon [OF assms] suc by simp
  also have "slice s ms (me - 1) @ drop (me - 1) s = drop ms s" by (rule slice_drop [OF le])
  finally show ?thesis .
qed

lemma parse_labels_loop_source:
  "concat (map inline_source (parse_labels_loop s [] line_no base_col pos)) = drop pos s"
proof (induction "length s - pos" arbitrary: pos rule: less_induct)
  case less
  show ?case
  proof (cases "label_search s pos")
    case None
    then show ?thesis by (simp add: parse_labels_loop_None)
  next
    case (Some q)
    obtain ms me where q: "q = (ms, me)" by (cases q)
    with Some have m: "label_search s pos = Some (ms, me)" by simp
    note b = label_search_bounds [OF m]
    from next_label_start_bounds [OF m]
    have d: "length s - next_label_start s me < length s - pos" by linarith
    have "concat (map inline_source (parse_labels_loop s [] line_no base_col pos))
        = slice s pos ms @ inline_source (label_node s line_no base_col ms me)
            @ drop (next_label_start s me) s"
      unfolding parse_labels_loop_Some [OF m]
      by (subst parse_labels_loop_acc) (simp add: less [OF d] slice_def)
    also have "\<dots> = slice s pos ms @ drop ms s" by (simp add: label_node_source [OF m])
    also have "\<dots> = drop pos s" by (rule slice_drop [OF b(1)])
    finally show ?thesis .
  qed
qed


lemma scan_inline_append:
  "scan_inline s line_no start_col (xs @ ys) i result in_code code_start plain_start =
     (case scan_inline s line_no start_col xs i result in_code code_start plain_start of
        (result1, in_code1, code_start1, plain_start1) \<Rightarrow>
          scan_inline s line_no start_col ys (i + length xs) result1 in_code1 code_start1 plain_start1)"
  by (induction xs arbitrary: i result in_code code_start plain_start) simp_all

lemma scan_inline_no_backtick:
  "CHR 0x60 \<notin> set xs \<Longrightarrow>
   scan_inline s line_no start_col xs i result in_code code_start plain_start =
     (result, in_code, code_start, plain_start)"
  by (induction xs arbitrary: i) auto

lemma slice_take: "b \<le> p \<Longrightarrow> slice (take p s) a b = slice s a b"
  by (simp add: slice_def drop_take min_def)

lemma scan_inline_take:
  "i + length xs \<le> p \<Longrightarrow>
   scan_inline (take p s) line_no start_col xs i result in_code code_start plain_start =
   scan_inline s line_no start_col xs i result in_code code_start plain_start"
proof (induction xs arbitrary: i result in_code code_start plain_start)
  case Nil
  show ?case by simp
next
  case (Cons x xs)
  from Cons.prems have i: "i \<le> p" and n: "Suc i + length xs \<le> p" by simp_all
  show ?case
    by (simp add: Cons.IH [OF n] slice_take [OF i])
qed

lemma scan_inline_in_code:
  "scan_inline s line_no start_col xs i result in_code code_start plain_start
     = (result1, in_code1, code_start1, plain_start1) \<Longrightarrow>
   in_code1 = (in_code \<noteq> odd (backticks xs))"
proof (induction xs arbitrary: i result in_code code_start plain_start)
  case Nil
  then show ?case by (simp add: backticks_def)
next
  case (Cons x xs)
  show ?case
  proof (cases "x = CHR 0x60")
    case False
    with Cons.prems Cons.IH [of "i + 1" result in_code code_start plain_start]
    show ?thesis by (simp add: backticks_def)
  next
    case True
    show ?thesis
    proof (cases in_code)
      case True
      with \<open>x = CHR 0x60\<close> Cons.prems Cons.IH [of "i + 1" _ False code_start "i + 1"]
      show ?thesis by (simp add: backticks_def)
    next
      case False
      with \<open>x = CHR 0x60\<close> Cons.prems Cons.IH [of "i + 1" _ True "i + 1" plain_start]
      show ?thesis by (simp add: backticks_def)
    qed
  qed
qed

lemma unmatched_backtick_split:
  assumes "s = pre @ CHR 0x60 # suf" and "CHR 0x60 \<notin> set suf" and "even (backticks pre)"
  shows "parse_inline_without_comment s line_no start_col =
           parse_inline_without_comment pre line_no start_col
             @ parse_labels_into (CHR 0x60 # suf) [] line_no (start_col + length pre)"
proof -
  let ?p = "length pre"
  obtain r1 ic1 cs1 ps1 where
    sc: "scan_inline s line_no start_col pre 0 [] False 0 0 = (r1, ic1, cs1, ps1)"
    by (cases "scan_inline s line_no start_col pre 0 [] False 0 0") auto
  from scan_inline_in_code [OF sc] assms(3) have ic1: "ic1 = False" by simp
  have tk: "take ?p s = pre" by (simp add: assms(1))
  have "scan_inline (take ?p s) line_no start_col pre 0 [] False 0 0 = (r1, ic1, cs1, ps1)"
    by (simp add: scan_inline_take sc)
  then have sp: "scan_inline pre line_no start_col pre 0 [] False 0 0 = (r1, False, cs1, ps1)"
    by (simp add: tk ic1)
  let ?r2 = "if ps1 < ?p then parse_labels_into (slice s ps1 ?p) r1 line_no (start_col + ps1) else r1"
  have sl: "slice s ps1 ?p = drop ps1 pre"
    by (simp add: slice_def assms(1) drop_take [symmetric] del: drop_take)
  have "scan_inline s line_no start_col (pre @ CHR 0x60 # suf) 0 [] False 0 0
          = (?r2, True, ?p + 1, ps1)"
    by (simp add: scan_inline_append sc ic1 scan_inline_no_backtick [OF assms(2)])
  then have whole: "scan_inline s line_no start_col s 0 [] False 0 0 = (?r2, True, ?p + 1, ps1)"
    using assms(1) by simp
  have d: "drop ?p s = CHR 0x60 # suf" by (simp add: assms(1))
  have len: "?p < length s" by (simp add: assms(1))
  have full: "parse_inline_without_comment s line_no start_col =
      parse_labels_into (CHR 0x60 # suf) ?r2 line_no (start_col + ?p)"
    unfolding parse_inline_without_comment_def whole using d len by (simp add: Let_def)
  have pref: "parse_inline_without_comment pre line_no start_col = ?r2"
    by (simp add: parse_inline_without_comment_def sp sl)
  show ?thesis
    unfolding full pref parse_labels_into_def
    by (rule parse_labels_loop_acc)
qed

lemma odd_backticks_split:
  assumes "odd (backticks s)"
  shows "\<exists>pre suf. s = pre @ CHR 0x60 # suf \<and> CHR 0x60 \<notin> set suf \<and> even (backticks pre)"
proof -
  have "CHR 0x60 \<in> set s"
  proof (rule ccontr)
    assume "CHR 0x60 \<notin> set s"
    then have "filter (\<lambda>c. c = CHR 0x60) s = []" by (auto simp: filter_empty_conv)
    with assms show False by (simp add: backticks_def)
  qed
  from split_list_last [OF this] obtain pre suf
    where d: "s = pre @ CHR 0x60 # suf" "CHR 0x60 \<notin> set suf" by blast
  from d(2) have "filter (\<lambda>c. c = CHR 0x60) suf = []" by (auto simp: filter_empty_conv)
  with d(1) have "backticks s = Suc (backticks pre)" by (simp add: backticks_def)
  with assms have "even (backticks pre)" by simp
  with d show ?thesis by blast
qed

text \<open>
  C9. A text with an odd number of backticks ends in an opening backtick that nothing
  closes: the text is \<open>pre ` suf\<close> with no backtick in \<open>suf\<close>. The lexer gives the nodes of
  \<open>pre\<close> followed by the result of label extraction, the treatment of text outside code
  spans, on the trailing segment \<open>` suf\<close> taken from the stray backtick on: none of those
  trailing nodes is an \<open>InlineCode\<close>, and together they spell the trailing segment,
  stray backtick included.
\<close>

theorem unmatched_backtick_is_plain_text:
  assumes "odd (backticks s)"
  shows "\<exists>pre suf. s = pre @ CHR 0x60 # suf \<and> CHR 0x60 \<notin> set suf
     \<and> parse_inline_without_comment s line_no start_col =
         parse_inline_without_comment pre line_no start_col
           @ parse_labels_into (CHR 0x60 # suf) [] line_no (start_col + length pre)
     \<and> list_all (\<lambda>n. \<not> is_inline_code n)
         (parse_labels_into (CHR 0x60 # suf) [] line_no (start_col + length pre))
     \<and> concat (map inline_source
         (parse_labels_into (CHR 0x60 # suf) [] line_no (start_col + length pre))) = CHR 0x60 # suf"
proof -
  from odd_backticks_split [OF assms] obtain pre suf
    where d: "s = pre @ CHR 0x60 # suf" "CHR 0x60 \<notin> set suf" "even (backticks pre)" by blast
  have "list_all (\<lambda>n. \<not> is_inline_code n)
         (parse_labels_into (CHR 0x60 # suf) [] line_no (start_col + length pre))"
    unfolding parse_labels_into_def by (rule parse_labels_loop_no_code)
  moreover have "concat (map inline_source
         (parse_labels_into (CHR 0x60 # suf) [] line_no (start_col + length pre))) = CHR 0x60 # suf"
    unfolding parse_labels_into_def by (simp add: parse_labels_loop_source)
  ultimately show ?thesis using d(1,2) unmatched_backtick_split [OF d] by blast
qed

theorem unmatched_backtick_is_plain_text_witness:
  "odd (backticks ''a `b` c `d e: f'')
   \<and> parse_inline_without_comment ''a `b` c `d e: f'' 1 1 =
       [Text ''a '' (Loc (Position 1 1) (Position 1 3)),
        InlineCode ''b'' (Loc (Position 1 4) (Position 1 5)),
        Text '' c '' (Loc (Position 1 6) (Position 1 9)),
        Text ''`d '' (Loc (Position 1 9) (Position 1 12)),
        InlineLabel ''e'' (Some '' f'') (Loc (Position 1 12) (Position 1 16))]"
proof -
  have h: "odd (backticks ''a `b` c `d e: f'')" by code_simp
  have e: "parse_inline_without_comment ''a `b` c `d e: f'' 1 1 =
       [Text ''a '' (Loc (Position 1 1) (Position 1 3)),
        InlineCode ''b'' (Loc (Position 1 4) (Position 1 5)),
        Text '' c '' (Loc (Position 1 6) (Position 1 9)),
        Text ''`d '' (Loc (Position 1 9) (Position 1 12)),
        InlineLabel ''e'' (Some '' f'') (Loc (Position 1 12) (Position 1 16))]" by code_simp
  from unmatched_backtick_is_plain_text [OF h, of 1 1] h e show ?thesis by simp
qed

subsection \<open>Locations\<close>

lemma loc_ok_same_line:
  "ln \<le> n \<Longrightarrow> a \<le> b \<Longrightarrow> loc_ok n (make_loc ln a (Some ln) (Some b))"
  by (simp add: loc_ok_def pos_le_def make_loc_def)

lemma loc_ok_lines:
  "l1 \<le> l2 \<Longrightarrow> l2 \<le> n \<Longrightarrow> (l1 = l2 \<Longrightarrow> a \<le> b) \<Longrightarrow> loc_ok n (make_loc l1 a (Some l2) (Some b))"
  by (auto simp: loc_ok_def pos_le_def make_loc_def)

lemma parse_labels_loop_ok:
  assumes "line_no \<le> n"
  shows "list_all (inline_ok n) (parse_labels_loop s [] line_no base_col pos)"
proof (induction "length s - pos" arbitrary: pos rule: less_induct)
  case less
  show ?case
  proof (cases "label_search s pos")
    case None
    have "pos \<le> length s" if "drop pos s \<noteq> []" using that by simp
    with None assms show ?thesis
      by (simp add: parse_labels_loop_None inline_ok_def loc_ok_same_line)
  next
    case (Some q)
    obtain ms me where q: "q = (ms, me)" by (cases q)
    with Some have m: "label_search s pos = Some (ms, me)" by simp
    note b = label_search_bounds [OF m] and nb = next_label_start_bounds [OF m]
    from nb have d: "length s - next_label_start s me < length s - pos" by linarith
    from b nb have "ms \<le> next_label_start s me" by simp
    with assms have l: "inline_ok n (label_node s line_no base_col ms me)"
      by (simp add: label_node_def inline_ok_def loc_ok_same_line)
    from assms have t: "inline_ok n (Text (slice s pos ms)
                (make_loc line_no (base_col + pos) (Some line_no) (Some (base_col + ms))))"
      if "pos < ms" using that by (simp add: inline_ok_def loc_ok_same_line)
    show ?thesis
      unfolding parse_labels_loop_Some [OF m]
      by (subst parse_labels_loop_acc) (simp add: less [OF d] l t)
  qed
qed

lemma parse_labels_into_ok:
  assumes "line_no \<le> n" and "list_all (inline_ok n) out"
  shows "list_all (inline_ok n) (parse_labels_into s out line_no base_col)"
  unfolding parse_labels_into_def
  by (subst parse_labels_loop_acc) (simp add: assms parse_labels_loop_ok)

lemma scan_inline_ok:
  assumes "line_no \<le> n"
  shows "list_all (inline_ok n) result \<Longrightarrow> in_code \<longrightarrow> code_start \<le> i \<Longrightarrow>
     list_all (inline_ok n)
       (fst (scan_inline s line_no start_col xs i result in_code code_start plain_start))"
proof (induction xs arbitrary: i result in_code code_start plain_start)
  case Nil
  then show ?case by simp
next
  case (Cons x xs)
  show ?case
  proof (cases "x = CHR 0x60")
    case False
    from Cons.prems(2) have "in_code \<longrightarrow> code_start \<le> i + 1" by auto
    from Cons.IH [OF Cons.prems(1) this, of plain_start] False show ?thesis by simp
  next
    case True
    show ?thesis
    proof (cases in_code)
      case True
      with Cons.prems(2) assms have "inline_ok n (InlineCode (slice s code_start i)
             (make_loc line_no (start_col + code_start) (Some line_no) (Some (start_col + i))))"
        by (simp add: inline_ok_def loc_ok_same_line)
      with Cons.prems(1) have r: "list_all (inline_ok n)
          (result @ [InlineCode (slice s code_start i)
             (make_loc line_no (start_col + code_start) (Some line_no) (Some (start_col + i)))])"
        by simp
      have "False \<longrightarrow> code_start \<le> i + 1" by simp
      from Cons.IH [OF r this, of "i + 1"] True \<open>x = CHR 0x60\<close>
      show ?thesis by simp
    next
      case False
      have r: "list_all (inline_ok n)
          (if plain_start < i
           then parse_labels_into (slice s plain_start i) result line_no (start_col + plain_start)
           else result)"
        using Cons.prems(1) assms by (simp add: parse_labels_into_ok)
      have "True \<longrightarrow> i + 1 \<le> i + 1" by simp
      from Cons.IH [OF r this, of plain_start] False \<open>x = CHR 0x60\<close>
      show ?thesis by simp
    qed
  qed
qed

lemma parse_inline_without_comment_ok:
  assumes "line_no \<le> n"
  shows "list_all (inline_ok n) (parse_inline_without_comment s line_no start_col)"
proof -
  obtain r ic cs ps where sc: "scan_inline s line_no start_col s 0 [] False 0 0 = (r, ic, cs, ps)"
    by (cases "scan_inline s line_no start_col s 0 [] False 0 0") auto
  have "list_all (inline_ok n) (fst (scan_inline s line_no start_col s 0 [] False 0 0))"
    by (rule scan_inline_ok [OF assms]) simp_all
  with sc have "list_all (inline_ok n) r" by simp
  with sc assms show ?thesis
    by (simp add: parse_inline_without_comment_def Let_def parse_labels_into_ok)
qed

lemma find_comment_bound:
  "find_comment allow in_code xs i = Some k \<Longrightarrow> i \<le> k \<and> k < i + length xs"
proof (induction xs arbitrary: i in_code)
  case Nil
  then show ?case by simp
next
  case (Cons x xs)
  let ?ic = "if x = CHR 0x60 then \<not> in_code else in_code"
  show ?case
  proof (cases "allow \<and> \<not> ?ic \<and> starts_with ''i#'' (x # xs)")
    case True
    with Cons.prems show ?thesis by (simp add: Let_def)
  next
    case False
    with Cons.prems have "find_comment allow ?ic xs (i + 1) = Some k"
      by (simp add: Let_def split: if_splits)
    from Cons.IH [OF this] show ?thesis by simp
  qed
qed

lemma parse_inline_ok:
  assumes "line_no \<le> n"
  shows "list_all (inline_ok n) (parse_inline s allow line_no start_col)"
proof (cases "find_comment allow False s 0")
  case None
  with assms show ?thesis by (simp add: parse_inline_def parse_inline_without_comment_ok)
next
  case (Some k)
  from find_comment_bound [OF Some] have "k \<le> length s" by simp
  with Some assms show ?thesis
    by (simp add: parse_inline_def parse_inline_without_comment_ok inline_ok_def loc_ok_same_line)
qed

lemma list_all_update: "list_all P xs \<Longrightarrow> P y \<Longrightarrow> list_all P (xs[i := y])"
  by (induction xs arbitrary: i) (auto split: nat.splits)

lemma append_at_ok:
  "list_all (block_ok n) body \<Longrightarrow> block_ok n b \<Longrightarrow> list_all (block_ok n) (append_at p b body)"
proof (induction p arbitrary: body)
  case Nil
  then show ?case by simp
next
  case (Cons i p)
  show ?case
  proof (cases "i < length body")
    case False
    with Cons.prems show ?thesis by simp
  next
    case True
    with Cons.prems(1) have ok: "block_ok n (body ! i)" by (simp add: list_all_length)
    show ?thesis
    proof (cases "body ! i")
      case (Section num title desc lvl sb l)
      with ok have "loc_ok n l" "list_all (block_ok n) sb" by simp_all
      with Cons.IH [OF _ Cons.prems(2), of sb]
      have "block_ok n (Section num title desc lvl (append_at p b sb) l)" by simp
      with Cons.prems(1) True Section show ?thesis by (simp add: list_all_update)
    qed (use Cons.prems(1) True in simp_all)
  qed
qed

lemma add_block_ok:
  "list_all (block_ok n) body \<Longrightarrow> block_ok n b \<Longrightarrow> list_all (block_ok n) (add_block body stack b)"
  by (simp add: add_block_def append_at_ok)

lemma fence_loop_content:
  "fence_loop k ls idx content = (idx1, content1, closed, ct) \<Longrightarrow>
     length content1 + (if closed then 1 else 0) \<le> length content + length ls"
proof (induction ls arbitrary: idx content)
  case Nil
  then show ?case by auto
next
  case (Cons l ls)
  show ?case
  proof (cases "fence_closes k l")
    case True
    with Cons.prems show ?thesis by auto
  next
    case False
    with Cons.prems have "fence_loop k ls (idx + 1) (content @ [l]) = (idx1, content1, closed, ct)"
      by simp
    from Cons.IH [OF this] show ?thesis by simp
  qed
qed

lemma fenced_block_step_ok:
  assumes "idx < length lines" and "list_all (block_ok (length lines)) (st_body st)"
  shows "list_all (block_ok (length lines)) (st_body (snd (fenced_block_step lines idx g1 g2 st)))"
proof -
  obtain i1 c1 cl ct where
    f: "fence_loop (length g1) (drop (idx + 1) lines) (idx + 1) [] = (i1, c1, cl, ct)"
    by (cases "fence_loop (length g1) (drop (idx + 1) lines) (idx + 1) []") auto
  from fence_loop_content [OF f] assms(1)
  have b: "idx + 1 + length c1 + (if cl then 1 else 0) \<le> length lines" by simp
  have "block_ok (length lines) (FencedCodeBlock info ind c1
      (make_loc (idx + 1) 1 (Some (idx + 1 + length c1 + (if cl then 1 else 0)))
        (Some (if ct \<noteq> [] then length ct + 1 else if c1 \<noteq> [] then length (last c1) + 1 else 1))))"
    for info ind
    using b by (auto simp: loc_ok_def pos_le_def make_loc_def)
  from add_block_ok [OF assms(2) this] show ?thesis
    unfolding fenced_block_step_def Let_def f by simp
qed

lemma table_parts_ok:
  assumes "list_all (row_ok n) xs" and "xs \<noteq> []"
  shows "row_ok n (case xs of r # _ \<Rightarrow> r | [] \<Rightarrow> TableRow [] None)
    \<and> (case (if length xs > 1 then Some (xs ! 1) else None) of Some r \<Rightarrow> row_ok n r | None \<Rightarrow> True)
    \<and> list_all (row_ok n) (if length xs > 2 then drop 2 xs else [])"
proof (cases xs)
  case Nil
  with assms(2) show ?thesis by simp
next
  case (Cons a ys)
  show ?thesis
  proof (cases ys)
    case Nil
    with Cons assms(1) show ?thesis by simp
  next
    case (Cons b zs)
    with \<open>xs = a # ys\<close> assms(1) show ?thesis by (cases zs) simp_all
  qed
qed

lemma table_step_ok:
  assumes "idx < length lines" and "table_match (lines ! idx)"
    and "list_all (block_ok (length lines)) (st_body st)"
  shows "list_all (block_ok (length lines)) (st_body (snd (table_step lines idx st)))"
proof -
  let ?n = "length lines"
  let ?rows = "collected_rows lines idx"
  let ?f = "\<lambda>(j, row). TableRow (row_cells row)
            (Some (make_loc (idx + 1 + j) 1 (Some (idx + 1 + j)) (Some (length (rstrip row) + 1))))"
  from assms(1) have d: "drop idx lines = lines ! idx # drop (Suc idx) lines"
    by (simp add: Cons_nth_drop_Suc)
  with assms(2) have ne: "?rows \<noteq> []" by (simp add: collected_rows_def)
  have "length ?rows \<le> length (drop idx lines)"
    unfolding collected_rows_def by (rule length_takeWhile_le)
  with assms(1) have len: "idx + length ?rows \<le> ?n" by simp
  have rows: "list_all (row_ok ?n) (map ?f (enumerate 0 ?rows))"
  proof -
    have "row_ok ?n (?f x)" if "x \<in> set (enumerate 0 ?rows)" for x
    proof -
      obtain j row where x: "x = (j, row)" by (cases x)
      with that have "j < length ?rows" by (simp add: in_set_enumerate_eq)
      with len have "idx + 1 + j \<le> ?n" by simp
      with x show ?thesis by (simp add: loc_ok_same_line)
    qed
    then show ?thesis by (simp add: list_all_iff)
  qed
  from ne have ne2: "map ?f (enumerate 0 ?rows) \<noteq> []" by (simp add: enumerate_eq_zip)
  note parts = table_parts_ok [OF rows ne2]
  from ne len have "loc_ok ?n (make_loc (idx + 1) 1 (Some (idx + 1 + length ?rows - 1))
      (Some (length (rstrip (last ?rows)) + 1)))"
    by (intro loc_ok_lines) (cases ?rows; simp)+
  with ne parts have "block_ok ?n (fst (parse_table ?rows (st_diagnostics st) (idx + 1)))"
    unfolding parse_table_eq Let_def fst_conv by simp
  with assms(3) show ?thesis
    unfolding table_step_eq by (simp add: add_block_ok)
qed

lemma place_section_ok:
  assumes "list_all (block_ok n) body" and "block_ok n section"
  shows "list_all (block_ok n) (fst (place_section body stack section diagnostics line_no))"
  using assms by (simp add: place_section_def Let_def append_at_ok)


lemma dropWhile_keeps_tail:
  "\<not> P m \<Longrightarrow> Suc (length ys) \<le> length (dropWhile P (xs @ m # ys))"
  by (induction xs) auto

lemma bullet_match_indent:
  assumes "bullet_match l = Some (ws, marker, t)"
  shows "length ws \<le> length (rstrip l)"
proof -
  from assms obtain sp t' where d: "dropWhile is_space l = marker # sp # t'"
    and ws: "ws = takeWhile is_space l"
    and m: "marker = CHR ''-'' \<or> marker = CHR ''*'' \<or> marker = CHR ''+''"
    by (auto simp: bullet_match_def split: list.splits if_splits option.splits)
  from m have ns: "\<not> is_space marker" by (auto simp: is_space_def in_range_def)
  have "l = ws @ marker # sp # t'"
    using takeWhile_dropWhile_id [of is_space l] by (simp add: ws d)
  then have "rev l = rev (sp # t') @ marker # rev ws" by simp
  with ns dropWhile_keeps_tail [of is_space marker "rev ws" "rev (sp # t')"]
  have "Suc (length ws) \<le> length (dropWhile is_space (rev l))" by simp
  then show ?thesis by (simp add: rstrip_def)
qed

lemma bullet_loop_ok:
  assumes "k \<le> idx + 1" and "list_all (item_inv (length lines) k) items"
  shows "list_all (item_inv (length lines) k) (snd (bullet_loop lines idx items))"
  using assms
proof (induction "length lines - idx" arbitrary: idx items rule: less_induct)
  case less
  show ?case
  proof (cases "idx < length lines")
    case False
    with less.prems show ?thesis by (simp add: bullet_loop.simps [of lines idx items])
  next
    case True
    show ?thesis
    proof (cases "bullet_match (lines ! idx)")
      case None
      with True less.prems show ?thesis by (simp add: bullet_loop.simps [of lines idx items])
    next
      case (Some g)
      obtain ws marker t where g: "g = (ws, marker, t)" by (cases g)
      with Some have bm: "bullet_match (lines ! idx) = Some (ws, marker, t)" by simp
      obtain la cont where c: "continuation_loop (length ws + 2) (drop (idx + 1) lines) (idx + 1) [] = (la, cont)"
        by (cases "continuation_loop (length ws + 2) (drop (idx + 1) lines) (idx + 1) []")
      from True have "idx + 1 + length (drop (idx + 1) lines) = length lines" by simp
      with continuation_loop_bounds [OF c] have la: "idx + 1 \<le> la" "la \<le> length lines"
        by (simp_all del: length_drop)
      let ?it = "BulletItem marker (parse_inline (join_sp (t # cont)) True (idx + 1) (length ws + 3))
                            (if cont \<noteq> [] then Some cont else None)
                            (make_loc (idx + 1) (length ws + 1) (Some (la - 1 + 1))
                               (Some (length (rstrip (lines ! (la - 1))) + 1)))"
      have r: "bullet_loop lines idx items = bullet_loop lines la (items @ [?it])"
        using True bm c by (simp add: bullet_loop.simps [of lines idx items] Let_def)
      have same: "length ws \<le> length (rstrip (lines ! (la - 1)))" if "la = idx + 1"
        using that bullet_match_indent [OF bm] by simp
      from la same have "loc_ok (length lines) (make_loc (idx + 1) (length ws + 1) (Some (la - 1 + 1))
                               (Some (length (rstrip (lines ! (la - 1))) + 1)))"
        by (auto simp: loc_ok_def pos_le_def make_loc_def)
      moreover from True have "list_all (inline_ok (length lines))
          (parse_inline (join_sp (t # cont)) True (idx + 1) (length ws + 3))"
        by (intro parse_inline_ok) simp
      moreover from la less.prems(1) have "pos_le (Position k 1) (loc_end (item_loc ?it))"
        by (auto simp: pos_le_def make_loc_def)
      ultimately have "item_inv (length lines) k ?it" by (simp add: item_inv_def)
      with less.prems(2) have inv: "list_all (item_inv (length lines) k) (items @ [?it])" by simp
      from la True have d: "length lines - la < length lines - idx" by linarith
      from la less.prems(1) have k: "k \<le> la + 1" by simp
      show ?thesis unfolding r by (rule less.hyps [OF d k inv])
    qed
  qed
qed

lemma bullet_list_step_ok:
  assumes "idx < length lines" and "list_all (block_ok (length lines)) (st_body st)"
  shows "list_all (block_ok (length lines)) (st_body (snd (bullet_list_step lines idx st)))"
proof -
  let ?n = "length lines"
  obtain i1 items where b: "bullet_loop lines idx [] = (i1, items)"
    by (cases "bullet_loop lines idx []")
  from bullet_loop_ok [of "idx + 1" idx lines "[]"] b
  have inv: "list_all (item_inv ?n (idx + 1)) items" by simp
  then have ok: "list_all (item_ok ?n) items" by (simp add: list_all_iff item_inv_def)
  have "loc_ok ?n (make_loc (idx + 1) 1
      (Some (if items \<noteq> [] then pos_line (loc_end (item_loc (last items))) else idx + 1))
      (Some (if items \<noteq> [] then pos_column (loc_end (item_loc (last items))) else 1)))"
  proof (cases "items = []")
    case True
    with assms(1) show ?thesis by (simp add: loc_ok_def pos_le_def make_loc_def)
  next
    case False
    with inv have i: "item_inv ?n (idx + 1) (last items)" by (simp add: list_all_iff)
    obtain marker inl cont l where it: "last items = BulletItem marker inl cont l"
      by (cases "last items")
    with i False show ?thesis
      by (cases l) (auto simp: item_inv_def loc_ok_def pos_le_def make_loc_def)
  qed
  with ok have "block_ok ?n (BulletList items (make_loc (idx + 1) 1
      (Some (if items \<noteq> [] then pos_line (loc_end (item_loc (last items))) else idx + 1))
      (Some (if items \<noteq> [] then pos_column (loc_end (item_loc (last items))) else 1))))"
    by simp
  from add_block_ok [OF assms(2) this] show ?thesis
    unfolding bullet_list_step_def Let_def b by simp
qed

lemma para_loop_indices:
  "para_loop ls idx pl = (idx1, pl1) \<Longrightarrow>
     \<exists>new. pl1 = pl @ new \<and> map fst new = [idx ..< idx1] \<and> idx \<le> idx1"
proof (induction ls arbitrary: idx pl)
  case Nil
  then show ?case by simp
next
  case (Cons l ls)
  show ?case
  proof (cases "para_loop (l # ls) idx pl = para_loop ls (idx + 1) (pl @ [(idx, l)])")
    case True
    with Cons.prems have "para_loop ls (idx + 1) (pl @ [(idx, l)]) = (idx1, pl1)" by simp
    from Cons.IH [OF this] obtain new
      where n: "pl1 = (pl @ [(idx, l)]) @ new" "map fst new = [idx + 1 ..< idx1]" "idx + 1 \<le> idx1"
      by blast
    from n(2,3) have "map fst ((idx, l) # new) = [idx ..< idx1]" by (simp add: upt_conv_Cons)
    with n(1,3) show ?thesis by (intro exI [of _ "(idx, l) # new"]) simp
  next
    case False
    then have "para_loop (l # ls) idx pl = (idx, pl)" by (simp split: if_splits)
    with Cons.prems show ?thesis by simp
  qed
qed

lemma paragraph_step_ok:
  assumes "idx < length lines" and "list_all (block_ok (length lines)) (st_body st)"
  shows "list_all (block_ok (length lines)) (st_body (snd (paragraph_step lines idx st)))"
proof -
  let ?n = "length lines"
  obtain i1 pl where p: "para_loop (drop idx lines) idx [] = (i1, pl)"
    by (cases "para_loop (drop idx lines) idx []")
  from para_loop_idx [OF p] assms(1) have i1: "i1 \<le> ?n" by simp
  from para_loop_indices [OF p] have m: "map fst pl = [idx ..< i1]" and le: "idx \<le> i1" by auto
  show ?thesis
  proof (cases "pl = []")
    case True
    with p assms(2) show ?thesis by (simp add: paragraph_step_def)
  next
    case False
    then have "map fst pl \<noteq> []" by simp
    with m have lt: "idx < i1" by simp
    from False have "fst (hd pl) = hd (map fst pl)" by (simp add: hd_map)
    with m lt have h: "fst (hd pl) = idx" by (simp add: upt_conv_Cons)
    from False have "fst (last pl) = last (map fst pl)" by (simp add: last_map)
    with m lt have l: "fst (last pl) = i1 - 1" by simp
    from h l lt i1 have "loc_ok ?n (make_loc (fst (hd pl) + 1) 1 (Some (fst (last pl) + 1)) (Some (c + 1)))" for c
      by (auto simp: loc_ok_def pos_le_def make_loc_def)
    moreover from h assms(1) have "list_all (inline_ok ?n) (parse_inline tx True (fst (hd pl) + 1) 1)" for tx
      by (intro parse_inline_ok) simp
    ultimately have "block_ok ?n (Paragraph (parse_inline tx True (fst (hd pl) + 1) 1)
        (make_loc (fst (hd pl) + 1) 1 (Some (fst (last pl) + 1)) (Some (c + 1))))" for tx c
      by simp
    from add_block_ok [OF assms(2) this] False show ?thesis
      unfolding paragraph_step_def p by (simp add: Let_def)
  qed
qed

lemma late_step_ok:
  assumes "idx < length lines" and "list_all (block_ok (length lines)) (st_body st)"
  shows "list_all (block_ok (length lines)) (st_body (snd (late_step lines idx st)))"
proof -
  from assms(1) have "block_ok (length lines) (WholeLineComment tx
      (make_loc (idx + 1) 1 (Some (idx + 1)) (Some (c + 1))))" for tx c
    by (simp add: loc_ok_def pos_le_def make_loc_def)
  from add_block_ok [OF assms(2) this] bullet_list_step_ok [OF assms] paragraph_step_ok [OF assms]
  show ?thesis by (simp add: late_step_def Let_def)
qed

lemma place_section_ok_result:
  assumes "place_section body stack section diagnostics line_no = (body1, stack1, diagnostics1)"
    and "list_all (block_ok n) body" and "block_ok n section"
  shows "list_all (block_ok n) body1"
  using place_section_ok [OF assms(2,3), of stack diagnostics line_no] assms(1) by simp

lemma section_step_ok:
  assumes "idx < length lines" and "list_all (block_ok (length lines)) (st_body st)"
  shows "list_all (block_ok (length lines)) (st_body (snd (section_step lines idx st)))"
proof -
  obtain cl d1 where c: "strip_illegal_inline_comment (lines ! idx) (idx + 1) (st_diagnostics st) = (cl, d1)"
    by (cases "strip_illegal_inline_comment (lines ! idx) (idx + 1) (st_diagnostics st)")
  show ?thesis
  proof (cases "section_match cl")
    case None
    from assms(2) have "list_all (block_ok (length lines)) (st_body (st\<lparr>st_diagnostics := d1\<rparr>))"
      by simp
    from late_step_ok [OF assms(1) this] None c show ?thesis
      by (simp add: section_step_def Let_def)
  next
    case (Some g)
    obtain g1 title desc where g: "g = (g1, title, desc)" by (cases g)
    from assms(1) Some g c show ?thesis
      by (auto simp: section_step_def Let_def loc_ok_def pos_le_def make_loc_def
          split: prod.splits intro!: place_section_ok_result [OF _ assms(2)])
  qed
qed

lemma body_step_ok:
  assumes "idx < length lines" and "list_all (block_ok (length lines)) (st_body st)"
  shows "list_all (block_ok (length lines)) (st_body (snd (body_step lines idx st)))"
proof -
  from assms have "list_all (block_ok (length lines))
      (st_body st @ [BlankLine (make_loc (idx + 1) 1 (Some (idx + 1)) (Some (c + 1)))])" for c
    by (simp add: loc_ok_def pos_le_def make_loc_def)
  with fenced_block_step_ok [OF assms] table_step_ok [OF assms(1) _ assms(2)]
    section_step_ok [OF assms] late_step_ok [OF assms]
  show ?thesis by (simp add: body_step_def Let_def split: option.splits)
qed

lemma parse_body_ok:
  "list_all (block_ok (length lines)) (st_body st) \<Longrightarrow>
   list_all (block_ok (length lines)) (st_body (parse_body lines idx st))"
proof (induction "length lines - idx" arbitrary: idx st rule: less_induct)
  case less
  show ?case
  proof (cases "idx < length lines")
    case False
    with less.prems show ?thesis by (simp add: parse_body.simps [of lines idx st])
  next
    case True
    obtain i1 st1 where b: "body_step lines idx st = (i1, st1)" by (cases "body_step lines idx st")
    from body_step_idx [OF True b] have d: "length lines - i1 < length lines - idx" by linarith
    from body_step_ok [OF True less.prems] b
    have "list_all (block_ok (length lines)) (st_body st1)" by simp
    from less.hyps [OF d this] True b show ?thesis
      by (simp add: parse_body.simps [of lines idx st])
  qed
qed


lemma metadata_loop_ok:
  "list_all (metadata_ok (length lines)) metadata \<Longrightarrow>
   list_all (metadata_ok (length lines)) (fst (snd (metadata_loop lines idx metadata diagnostics)))"
proof (induction "length lines - idx" arbitrary: idx metadata diagnostics rule: less_induct)
  case less
  show ?case
  proof (cases "idx < length lines")
    case False
    with less.prems show ?thesis
      by (simp add: metadata_loop.simps [of lines idx metadata diagnostics])
  next
    case True
    then have d: "length lines - (idx + 1) < length lines - idx" by simp
    from True have "metadata_ok (length lines) (MetadataEntry key val
        (make_loc (idx + 1) 1 (Some (idx + 1)) (Some (c + 1))))" for key val c
      by (simp add: loc_ok_def pos_le_def make_loc_def)
    with less.prems have "list_all (metadata_ok (length lines)) (metadata @ [MetadataEntry key val
        (make_loc (idx + 1) 1 (Some (idx + 1)) (Some (c + 1)))])" for key val c
      by simp
    from less.hyps [OF d this] less.prems True show ?thesis
      by (simp add: metadata_loop.simps [of lines idx metadata diagnostics] Let_def
          split: option.splits prod.splits)
  qed
qed

lemma first_non_blank_bound:
  "first_non_blank ls i = Some k \<Longrightarrow> i \<le> k \<and> k < i + length ls"
proof (induction ls arbitrary: i)
  case Nil
  then show ?case by simp
next
  case (Cons l ls)
  show ?case
  proof (cases "strip l \<noteq> []")
    case True
    with Cons.prems show ?thesis by simp
  next
    case False
    with Cons.prems have "first_non_blank ls (i + 1) = Some k" by simp
    from Cons.IH [OF this] show ?thesis by simp
  qed
qed

lemma parse_header_ok:
  assumes "line_no \<le> n" and "parse_header s line_no diagnostics = (Some h, diagnostics1)"
  shows "header_ok n h"
  using assms
  by (auto simp: parse_header_def loc_ok_def pos_le_def make_loc_def split: option.splits)

text \<open>
  C8. For every input and every node of the document that \<open>parse_document\<close> returns
  (the header, the metadata entries, the blocks at every depth of the section tree, the
  table rows, the bullet items and the inline nodes), the location has
  \<open>start \<le> end\<close> in the lexicographic order on (line, column) and its end line is at most
  the number of input lines.
\<close>

theorem locations_are_ordered_and_in_range:
  "document_ok (length lines) (parse_document lines)"
proof (cases "first_non_blank lines 0")
  case None
  then show ?thesis by (simp add: parse_document_def document_ok_def)
next
  case (Some idx)
  from first_non_blank_bound [OF Some] have i: "idx + 1 \<le> length lines" by simp
  obtain hl d1 where s: "strip_illegal_inline_comment (lines ! idx) (idx + 1) [] = (hl, d1)"
    by (cases "strip_illegal_inline_comment (lines ! idx) (idx + 1) []")
  obtain h d2 where p: "parse_header hl (idx + 1) d1 = (h, d2)"
    by (cases "parse_header hl (idx + 1) d1")
  obtain i2 md d3 where m: "metadata_loop lines (idx + 1) [] d2 = (i2, md, d3)"
    by (cases "metadata_loop lines (idx + 1) [] d2") auto
  from metadata_loop_ok [of lines "[]" "idx + 1" d2] m
  have mo: "list_all (metadata_ok (length lines)) md" by simp
  have bo: "list_all (block_ok (length lines))
      (st_body (parse_body lines i2 \<lparr>st_body = [], st_stack = [], st_diagnostics = d3\<rparr>))"
    by (rule parse_body_ok) simp
  have ho: "case h of Some x \<Rightarrow> header_ok (length lines) x | None \<Rightarrow> True"
    using parse_header_ok [OF i] p by (cases h) auto
  from Some s p m mo bo ho show ?thesis
    by (simp add: parse_document_def document_ok_def Let_def)
qed

theorem locations_are_ordered_and_in_range_witness:
  "document_ok 7 (parse_document
     [''DOC: x'', ''key: v'', '''', ''1 INTRO: text'', ''- item `c` i# note'', ''  more'',
      ''| a | b |''])"
  using locations_are_ordered_and_in_range
    [of "[''DOC: x'', ''key: v'', '''', ''1 INTRO: text'', ''- item `c` i# note'', ''  more'',
      ''| a | b |'']"]
  by (simp add: eval_nat_numeral)

subsection \<open>The states that the body loop reaches\<close>

lemma valid_handle_snoc: "valid_handle q body \<Longrightarrow> valid_handle q (body @ [b])"
  by (cases q) (auto simp: nth_append)

lemma valid_handle_append_at:
  "valid_handle q body \<Longrightarrow> valid_handle q (append_at p b body)"
proof (induction q arbitrary: p body)
  case Nil
  show ?case by simp
next
  case (Cons j q)
  show ?case
  proof (cases p)
    case Nil
    with Cons.prems show ?thesis using valid_handle_snoc [of "j # q" body b] by simp
  next
    case (Cons i p')
    note p = this
    show ?thesis
    proof (cases "i < length body")
      case False
      with p Cons.prems show ?thesis by simp
    next
      case True
      show ?thesis
      proof (cases "body ! i")
        case (Section num title desc lvl sb l)
        show ?thesis
        proof (cases "i = j")
          case True
          with Cons.prems Section have "valid_handle q sb" by simp
          from Cons.IH [OF this, of p'] True Section \<open>i < length body\<close> p
          show ?thesis by simp
        next
          case False
          with Cons.prems Section \<open>i < length body\<close> p show ?thesis by simp
        qed
      qed (use p Cons.prems True in simp_all)
    qed
  qed
qed

lemma body_at_append_at:
  "valid_handle p body \<Longrightarrow> body_at p (append_at p b body) = body_at p body @ [b]"
proof (induction p arbitrary: body)
  case Nil
  show ?case by simp
next
  case (Cons i p)
  then show ?case by (cases "body ! i") auto
qed

lemma valid_handle_new_section:
  "valid_handle p body \<Longrightarrow>
   valid_handle (p @ [length (body_at p body)]) (append_at p (Section num title desc lvl sb l) body)"
proof (induction p arbitrary: body)
  case Nil
  show ?case by simp
next
  case (Cons i p)
  then show ?case by (cases "body ! i") auto
qed


lemma stack_valid_add_block:
  assumes "stack_valid st"
  shows "stack_valid (st\<lparr>st_body := add_block (st_body st) (st_stack st) b\<rparr>)"
  using assms by (simp add: stack_valid_def add_block_def list_all_iff valid_handle_append_at)

lemma stack_valid_diagnostics [simp]:
  "stack_valid (st\<lparr>st_diagnostics := d\<rparr>) = stack_valid st"
  by (simp add: stack_valid_def)

lemma pop_to_level_subset: "set (pop_to_level stack k) \<subseteq> set stack"
proof (induction "length stack" arbitrary: stack rule: less_induct)
  case less
  show ?case
  proof (cases "stack \<noteq> [] \<and> length (number (last stack)) \<ge> k")
    case False
    then have "pop_to_level stack k = stack" by (subst pop_to_level.simps) auto
    then show ?thesis by simp
  next
    case True
    then have e: "pop_to_level stack k = pop_to_level (butlast stack) k"
      by (subst pop_to_level.simps) simp
    from True have "length (butlast stack) < length stack" by simp
    from less [OF this] have "set (pop_to_level (butlast stack) k) \<subseteq> set (butlast stack)" .
    also have "\<dots> \<subseteq> set stack" by (auto dest: in_set_butlastD)
    finally show ?thesis unfolding e .
  qed
qed

lemma find_in_set: "find P xs = Some c \<Longrightarrow> c \<in> set xs"
  by (induction xs) (auto split: if_splits)

lemma place_section_valid:
  assumes "list_all (\<lambda>e. valid_handle (handle e) body) stack"
    and "place_section body stack (Section num title desc lvl sb l) diagnostics line_no
           = (body1, stack1, diagnostics1)"
  shows "list_all (\<lambda>e. valid_handle (handle e) body1) stack1"
proof -
  let ?s1 = "pop_to_level stack (length num)"
  let ?parent = "if butlast num \<noteq> [] then find (\<lambda>c. number c = butlast num) (rev ?s1) else None"
  let ?target = "case ?parent of Some c \<Rightarrow> handle c | None \<Rightarrow> []"
  from assms(1) pop_to_level_subset [of stack "length num"]
  have v1: "\<forall>e \<in> set ?s1. valid_handle (handle e) body" by (auto simp: list_all_iff)
  have vt: "valid_handle ?target body"
  proof (cases ?parent)
    case None
    then show ?thesis by simp
  next
    case (Some c)
    then have "c \<in> set ?s1" by (auto dest: find_in_set split: if_splits)
    with v1 Some show ?thesis by simp
  qed
  from assms(2) have b1: "body1 = append_at ?target (Section num title desc lvl sb l) body"
    and s1: "stack1 = ?s1 @ [OpenSection (?target @ [length (body_at ?target body)]) num]"
    by (simp_all add: place_section_def Let_def)
  from v1 have "\<forall>e \<in> set ?s1. valid_handle (handle e) body1"
    unfolding b1 by (simp add: valid_handle_append_at)
  moreover have "valid_handle (?target @ [length (body_at ?target body)]) body1"
    unfolding b1 by (rule valid_handle_new_section [OF vt])
  ultimately show ?thesis unfolding s1 by (simp add: list_all_iff)
qed

lemma stack_valid_bullet_list_step:
  "stack_valid st \<Longrightarrow> stack_valid (snd (bullet_list_step lines idx st))"
  by (simp add: bullet_list_step_def Let_def stack_valid_add_block split: prod.splits)

lemma stack_valid_paragraph_step:
  "stack_valid st \<Longrightarrow> stack_valid (snd (paragraph_step lines idx st))"
  by (simp add: paragraph_step_def Let_def stack_valid_add_block split: prod.splits)

lemma stack_valid_late_step:
  "stack_valid st \<Longrightarrow> stack_valid (snd (late_step lines idx st))"
  by (simp add: late_step_def Let_def stack_valid_add_block stack_valid_bullet_list_step
      stack_valid_paragraph_step)

lemma stack_valid_section_step:
  assumes "stack_valid st"
  shows "stack_valid (snd (section_step lines idx st))"
proof -
  obtain cl d1 where c: "strip_illegal_inline_comment (lines ! idx) (idx + 1) (st_diagnostics st) = (cl, d1)"
    by (cases "strip_illegal_inline_comment (lines ! idx) (idx + 1) (st_diagnostics st)")
  show ?thesis
  proof (cases "section_match cl")
    case None
    with c assms stack_valid_late_step [of "st\<lparr>st_diagnostics := d1\<rparr>" lines idx]
    show ?thesis by (simp add: section_step_def Let_def)
  next
    case (Some g)
    obtain g1 title desc where g: "g = (g1, title, desc)" by (cases g)
    from assms have v: "list_all (\<lambda>e. valid_handle (handle e) (st_body st)) (st_stack st)"
      by (simp add: stack_valid_def)
    from c Some g show ?thesis
      by (auto simp: section_step_def Let_def stack_valid_def split: prod.splits
          intro: place_section_valid [OF v])
  qed
qed

lemma stack_valid_body_step:
  assumes "stack_valid st"
  shows "stack_valid (snd (body_step lines idx st))"
proof -
  from assms have "stack_valid (st\<lparr>st_body := st_body st @ [b]\<rparr>)" for b
    by (simp add: stack_valid_def list_all_iff valid_handle_snoc)
  moreover have "stack_valid (snd (fenced_block_step lines idx g1 g2 st))" for g1 g2
    using assms stack_valid_add_block [OF assms]
    by (simp add: fenced_block_step_def Let_def stack_valid_def split: prod.splits)
  moreover have "stack_valid (snd (table_step lines idx st))"
    using stack_valid_add_block [OF assms]
    by (simp add: table_step_def stack_valid_def split: prod.splits)
  ultimately show ?thesis
    using stack_valid_section_step [OF assms] stack_valid_late_step [OF assms]
    by (simp add: body_step_def Let_def split: option.splits)
qed

lemma reached_stack_valid: "reached lines idx st \<Longrightarrow> stack_valid st"
proof (induction rule: reached.induct)
  case (start header metadata idx2 st0)
  then show ?case
    by (auto simp: scan_start_def stack_valid_def split: option.splits prod.splits)
next
  case (step idx st idx1 st1)
  from stack_valid_body_step [OF step.IH, of lines idx] step.hyps show ?case by simp
qed

lemma parse_document_scan_start:
  "parse_document lines =
     (case scan_start lines of
        None \<Rightarrow> empty_document
      | Some (header, metadata, idx2, st0) \<Rightarrow>
          (let st = parse_body lines idx2 st0
           in \<lparr>doc_header = header, doc_metadata = metadata, doc_body = st_body st,
               doc_diagnostics = (if st_diagnostics st \<noteq> [] then Some (st_diagnostics st)
                                  else None)\<rparr>))"
  by (simp add: parse_document_def scan_start_def empty_document_def
      split: option.splits prod.splits)

lemma reached_final:
  "reached lines idx st \<Longrightarrow>
   \<exists>header metadata idx2 st0. scan_start lines = Some (header, metadata, idx2, st0)
      \<and> parse_body lines idx2 st0 = parse_body lines idx st"
proof (induction rule: reached.induct)
  case (start header metadata idx2 st0)
  then show ?case by blast
next
  case (step idx st idx1 st1)
  from step.hyps(2,3) have "parse_body lines idx st = parse_body lines idx1 st1"
    by (simp add: parse_body.simps [of lines idx st])
  with step.IH show ?case by simp
qed

lemma reached_document:
  assumes "reached lines idx st"
  shows "doc_body (parse_document lines) = st_body (parse_body lines idx st)"
    and "diagnostics_of (parse_document lines) = st_diagnostics (parse_body lines idx st)"
proof -
  from reached_final [OF assms] obtain header metadata idx2 st0
    where s: "scan_start lines = Some (header, metadata, idx2, st0)"
      and p: "parse_body lines idx2 st0 = parse_body lines idx st" by blast
  show "doc_body (parse_document lines) = st_body (parse_body lines idx st)"
    by (simp add: parse_document_scan_start s p Let_def)
  show "diagnostics_of (parse_document lines) = st_diagnostics (parse_body lines idx st)"
    by (simp add: parse_document_scan_start s p Let_def diagnostics_of_def)
qed


lemma all_leaves_append [simp]: "all_leaves (xs @ ys) = all_leaves xs @ all_leaves ys"
  by (simp add: all_leaves_def)

lemma all_leaves_Cons [simp]: "all_leaves (x # xs) = leaves x @ all_leaves xs"
  by (simp add: all_leaves_def)

lemma all_leaves_Nil [simp]: "all_leaves [] = []"
  by (simp add: all_leaves_def)

lemma leaves_Section [simp]: "leaves (Section num title desc lvl sb l) = all_leaves sb"
  by (simp add: all_leaves_def)

declare leaves.simps(1) [simp del]

lemma all_leaves_update:
  assumes "i < length body"
  shows "all_leaves (body[i := b]) = all_leaves (take i body) @ leaves b @ all_leaves (drop (Suc i) body)"
    and "all_leaves body = all_leaves (take i body) @ leaves (body ! i) @ all_leaves (drop (Suc i) body)"
proof -
  from assms have "body[i := b] = take i body @ b # drop (Suc i) body" by (rule upd_conv_take_nth_drop)
  then show "all_leaves (body[i := b]) = all_leaves (take i body) @ leaves b @ all_leaves (drop (Suc i) body)"
    by simp
  from assms have "body = take i body @ body ! i # drop (Suc i) body" by (rule id_take_nth_drop)
  then have "all_leaves body = all_leaves (take i body @ body ! i # drop (Suc i) body)" by simp
  then show "all_leaves body = all_leaves (take i body) @ leaves (body ! i) @ all_leaves (drop (Suc i) body)"
    by simp
qed

lemma all_leaves_append_at_mono:
  "set (all_leaves body) \<subseteq> set (all_leaves (append_at p b body))"
proof (induction p arbitrary: body)
  case Nil
  show ?case by simp
next
  case (Cons i p)
  show ?case
  proof (cases "i < length body")
    case False
    then show ?thesis by simp
  next
    case True
    show ?thesis
    proof (cases "body ! i")
      case (Section num title desc lvl sb l)
      from Cons.IH [of sb]
      have "set (leaves (body ! i)) \<subseteq> set (leaves (Section num title desc lvl (append_at p b sb) l))"
        by (simp add: Section)
      with True Section show ?thesis
        by (auto simp: all_leaves_update(1) [OF True] all_leaves_update(2) [OF True])
    qed (use True in simp_all)
  qed
qed

lemma all_leaves_append_at_valid:
  "valid_handle p body \<Longrightarrow> set (leaves b) \<subseteq> set (all_leaves (append_at p b body))"
proof (induction p arbitrary: body)
  case Nil
  show ?case by simp
next
  case (Cons i p)
  from Cons.prems have i: "i < length body" by simp
  show ?case
  proof (cases "body ! i")
    case (Section num title desc lvl sb l)
    with Cons.prems have "valid_handle p sb" by simp
    from Cons.IH [OF this] i Section show ?thesis
      by (auto simp: all_leaves_update(1) [OF i])
  qed (use Cons.prems in simp_all)
qed

lemma add_block_leaves_mono:
  "set (all_leaves body) \<subseteq> set (all_leaves (add_block body stack b))"
  by (simp add: add_block_def all_leaves_append_at_mono)

lemma place_section_leaves_mono:
  "set (all_leaves body) \<subseteq> set (all_leaves (fst (place_section body stack sec diagnostics line_no)))"
  by (simp add: place_section_def Let_def all_leaves_append_at_mono)

lemma place_section_diagnostics_mono:
  "set diagnostics \<subseteq> set (snd (snd (place_section body stack sec diagnostics line_no)))"
  by (auto simp: place_section_def Let_def)

lemma strip_illegal_diagnostics_mono:
  "set diagnostics \<subseteq> set (snd (strip_illegal_inline_comment s line_no diagnostics))"
  by (auto simp: strip_illegal_inline_comment_def split: option.splits)

lemma late_step_mono:
  "set (all_leaves (st_body st)) \<subseteq> set (all_leaves (st_body (snd (late_step lines idx st))))
   \<and> set (st_diagnostics st) \<subseteq> set (st_diagnostics (snd (late_step lines idx st)))"
  using add_block_leaves_mono [of "st_body st" "st_stack st"]
  by (auto simp: late_step_def Let_def bullet_list_step_def paragraph_step_def split: prod.splits)

lemma section_step_mono:
  "set (all_leaves (st_body st)) \<subseteq> set (all_leaves (st_body (snd (section_step lines idx st))))
   \<and> set (st_diagnostics st) \<subseteq> set (st_diagnostics (snd (section_step lines idx st)))"
proof -
  obtain cl d1 where c: "strip_illegal_inline_comment (lines ! idx) (idx + 1) (st_diagnostics st) = (cl, d1)"
    by (cases "strip_illegal_inline_comment (lines ! idx) (idx + 1) (st_diagnostics st)")
  from strip_illegal_diagnostics_mono [of "st_diagnostics st" "lines ! idx" "idx + 1"] c
  have d: "set (st_diagnostics st) \<subseteq> set d1" by simp
  show ?thesis
  proof (cases "section_match cl")
    case None
    with c d late_step_mono [of "st\<lparr>st_diagnostics := d1\<rparr>" lines idx] show ?thesis
      by (auto simp: section_step_def Let_def)
  next
    case (Some g)
    obtain g1 title desc where g: "g = (g1, title, desc)" by (cases g)
    let ?sec = "Section (map int_of (split_on CHR ''.'' g1)) title
                  (case desc of Some d \<Rightarrow> (if d \<noteq> [] then Some d else None) | None \<Rightarrow> None)
                  (length (map int_of (split_on CHR ''.'' g1))) []
                  (make_loc (idx + 1) 1 (Some (idx + 1)) (Some (length (rstrip (lines ! idx)) + 1)))"
    obtain b1 s1 d2 where p: "place_section (st_body st) (st_stack st) ?sec d1 (idx + 1) = (b1, s1, d2)"
      by (cases "place_section (st_body st) (st_stack st) ?sec d1 (idx + 1)") auto
    from place_section_leaves_mono [of "st_body st" "st_stack st" ?sec d1 "idx + 1"] p
    have m1: "set (all_leaves (st_body st)) \<subseteq> set (all_leaves b1)" by simp
    from place_section_diagnostics_mono [of d1 "st_body st" "st_stack st" ?sec "idx + 1"] p d
    have m2: "set (st_diagnostics st) \<subseteq> set d2" by auto
    have "snd (section_step lines idx st) = \<lparr>st_body = b1, st_stack = s1, st_diagnostics = d2\<rparr>"
      unfolding section_step_def Let_def c using Some g p by simp
    with m1 m2 show ?thesis by simp
  qed
qed

lemma body_step_mono:
  "set (all_leaves (st_body st)) \<subseteq> set (all_leaves (st_body (snd (body_step lines idx st))))
   \<and> set (st_diagnostics st) \<subseteq> set (st_diagnostics (snd (body_step lines idx st)))"
proof -
  have f: "set (all_leaves (st_body st)) \<subseteq> set (all_leaves (st_body (snd (fenced_block_step lines idx g1 g2 st))))
   \<and> set (st_diagnostics st) \<subseteq> set (st_diagnostics (snd (fenced_block_step lines idx g1 g2 st)))" for g1 g2
    using add_block_leaves_mono [of "st_body st" "st_stack st"]
    by (auto simp: fenced_block_step_def Let_def split: prod.splits)
  have t: "set (all_leaves (st_body st)) \<subseteq> set (all_leaves (st_body (snd (table_step lines idx st))))
   \<and> set (st_diagnostics st) \<subseteq> set (st_diagnostics (snd (table_step lines idx st)))"
    using add_block_leaves_mono [of "st_body st" "st_stack st"]
    by (auto simp: table_step_eq parse_table_eq Let_def)
  from f t section_step_mono [of st lines idx] late_step_mono [of st lines idx]
  show ?thesis
    by (auto simp: body_step_def Let_def split: option.splits)
qed

lemma parse_body_mono:
  "set (all_leaves (st_body st)) \<subseteq> set (all_leaves (st_body (parse_body lines idx st)))
   \<and> set (st_diagnostics st) \<subseteq> set (st_diagnostics (parse_body lines idx st))"
proof (induction "length lines - idx" arbitrary: idx st rule: less_induct)
  case less
  show ?case
  proof (cases "idx < length lines")
    case False
    then show ?thesis by (simp add: parse_body.simps [of lines idx st])
  next
    case True
    obtain i1 st1 where b: "body_step lines idx st = (i1, st1)" by (cases "body_step lines idx st")
    from body_step_idx [OF True b] have d: "length lines - i1 < length lines - idx" by linarith
    from body_step_mono [of st lines idx] b
    have "set (all_leaves (st_body st)) \<subseteq> set (all_leaves (st_body st1))"
      and "set (st_diagnostics st) \<subseteq> set (st_diagnostics st1)" by simp_all
    with less [OF d, of st1] True b show ?thesis
      by (auto simp: parse_body.simps [of lines idx st])
  qed
qed

lemma top_handle_valid: "stack_valid st \<Longrightarrow> valid_handle (top_handle st) (st_body st)"
  by (auto simp: stack_valid_def top_handle_def list_all_iff)

lemma add_block_top_handle: "add_block (st_body st) (st_stack st) b = append_at (top_handle st) b (st_body st)"
  by (simp add: add_block_def top_handle_def)

text \<open>
  C6. The row \<open>| a | b |\<close> gives the cells \<open>[a, b]\<close>. Whenever the body loop of
  \<open>parse_document\<close> stands on a line that \<open>TABLE_RE\<close> matches, it collects the run of such
  lines, and if row \<open>i\<close> of the run holds the fence marker, first at index \<open>k\<close>, the turn
  still appends, to the body of the innermost open section, a \<open>Table\<close> made of all the
  collected rows, that row included; the document returned holds this table, and its
  diagnostics hold the error \<open>FENCE_IN_TABLE\<close> at the line of that row and column
  \<open>k + 1\<close>, the column of the marker.
\<close>

theorem fence_marker_in_table_row:
  assumes "reached lines idx st" and "idx < length lines" and "table_match (lines ! idx)"
    and "i < length (collected_rows lines idx)"
    and "find_sub fence_marker (collected_rows lines idx ! i) 0 = Some k"
  shows "row_cells ''| a | b |'' = [''a'', ''b'']
    \<and> body_step lines idx st =
        (idx + length (collected_rows lines idx),
         st\<lparr>st_body := add_block (st_body st) (st_stack st)
               (fst (parse_table (collected_rows lines idx) (st_diagnostics st) (idx + 1))),
            st_diagnostics :=
               snd (parse_table (collected_rows lines idx) (st_diagnostics st) (idx + 1))\<rparr>)
    \<and> map row_cells_of
          (table_rows_of (fst (parse_table (collected_rows lines idx) (st_diagnostics st) (idx + 1))))
        = map row_cells (collected_rows lines idx)
    \<and> body_at (top_handle st) (st_body (snd (body_step lines idx st)))
        = body_at (top_handle st) (st_body st)
            @ [fst (parse_table (collected_rows lines idx) (st_diagnostics st) (idx + 1))]
    \<and> fst (parse_table (collected_rows lines idx) (st_diagnostics st) (idx + 1))
        \<in> set (all_leaves (doc_body (parse_document lines)))
    \<and> fence_in_table_diag (idx + 1 + i) (k + 1) \<in> set (diagnostics_of (parse_document lines))
    \<and> starts_with fence_marker (drop k (collected_rows lines idx ! i))
    \<and> (\<forall>j < k. \<not> starts_with fence_marker (drop j (collected_rows lines idx ! i)))"
proof -
  let ?rows = "collected_rows lines idx"
  let ?T = "fst (parse_table ?rows (st_diagnostics st) (idx + 1))"
  let ?D = "snd (parse_table ?rows (st_diagnostics st) (idx + 1))"
  let ?st1 = "st\<lparr>st_body := add_block (st_body st) (st_stack st) ?T, st_diagnostics := ?D\<rparr>"
  have c: "row_cells ''| a | b |'' = [''a'', ''b'']" by code_simp
  from assms(4) have ne: "?rows \<noteq> []" by auto
  have s: "body_step lines idx st = (idx + length ?rows, ?st1)"
    by (rule body_step_table [OF assms(3), of st, unfolded table_step_eq])
  note f = find_sub_Some [OF assms(5)]
  note v = top_handle_valid [OF reached_stack_valid [OF assms(1)]]
  have b: "body_at (top_handle st) (st_body (snd (body_step lines idx st)))
        = body_at (top_handle st) (st_body st) @ [?T]"
    unfolding s by (simp add: add_block_top_handle body_at_append_at [OF v])
  have leaf: "leaves ?T = [?T]" unfolding parse_table_eq Let_def by simp
  from all_leaves_append_at_valid [OF v, of ?T] leaf
  have t1: "?T \<in> set (all_leaves (st_body ?st1))" by (simp add: add_block_top_handle)
  have d1: "fence_in_table_diag (idx + 1 + i) (k + 1) \<in> set (st_diagnostics ?st1)"
    using parse_table_fence_diag [OF assms(4,5), of "idx + 1" "st_diagnostics st"] by simp
  have r1: "reached lines (idx + length ?rows) ?st1"
    by (rule reached.step [OF assms(1,2) s])
  note m = parse_body_mono [of ?st1 lines "idx + length ?rows"]
  from t1 m have t: "?T \<in> set (all_leaves (doc_body (parse_document lines)))"
    unfolding reached_document(1) [OF r1] by blast
  from d1 m have d: "fence_in_table_diag (idx + 1 + i) (k + 1) \<in> set (diagnostics_of (parse_document lines))"
    unfolding reached_document(2) [OF r1] by blast
  from c s parse_table_cells [OF ne, of "st_diagnostics st" "idx + 1"] b t d f
  show ?thesis by simp
qed

text \<open>
  C3, amended. Whenever the body loop of \<open>parse_document\<close> stands on a fence-opening line
  and no later line closes the fence, the loop ends there: the body of the document
  returned is the body so far with a \<open>FencedCodeBlock\<close> appended to the body of the
  innermost open section, whose content is exactly the lines after the opening line up
  to the end of the input, and the diagnostics are those so far followed by one error
  \<open>FENCE_UNTERMINATED\<close> at column 1 of the last captured content line (the opening line
  when nothing was captured), which is the last line of the input. In particular, after
  a header line, a fence opened with the info string \<open>python\<close> and never closed gives a
  document whose body is that block alone, with that error alone.
\<close>

theorem unterminated_fence_block:
  assumes "reached lines idx st" and "idx < length lines"
    and "fence_match (lines ! idx) = Some (g1, g2)"
    and "\<forall>l \<in> set (drop (idx + 1) lines). \<not> fence_closes (length g1) l"
  shows "doc_body (parse_document lines)
           = add_block (st_body st) (st_stack st) (unterminated_block lines idx g1 g2)
   \<and> body_at (top_handle st) (doc_body (parse_document lines))
       = body_at (top_handle st) (st_body st) @ [unterminated_block lines idx g1 g2]
   \<and> diagnostics_of (parse_document lines)
       = st_diagnostics st @ [fence_unterminated_diag (length lines)]
   \<and> length lines = idx + 1 + length (drop (idx + 1) lines)
   \<and> ((\<forall>l \<in> set rest. \<not> fence_closes 0 l) \<longrightarrow>
        parse_document (''DOC: x'' # ''```python'' # rest) =
          \<lparr>doc_header = Some (Header ''DOC'' ''x'' (Loc (Position 1 1) (Position 1 7))),
           doc_metadata = [],
           doc_body =
             [FencedCodeBlock (Some ''python'') 0 rest
                (Loc (Position 2 1)
                   (Position (length rest + 2) (if rest \<noteq> [] then length (last rest) + 1 else 1)))],
           doc_diagnostics = Some [fence_unterminated_diag (length rest + 2)]\<rparr>)"
proof -
  note p = parse_body_unterminated [OF assms(2,3,4), of st, folded unterminated_block_def]
  note v = top_handle_valid [OF reached_stack_valid [OF assms(1)]]
  have b: "doc_body (parse_document lines)
      = add_block (st_body st) (st_stack st) (unterminated_block lines idx g1 g2)"
    unfolding reached_document(1) [OF assms(1)] p by simp
  have d: "diagnostics_of (parse_document lines)
      = st_diagnostics st @ [fence_unterminated_diag (length lines)]"
    unfolding reached_document(2) [OF assms(1)] p by simp
  have a: "body_at (top_handle st) (doc_body (parse_document lines))
       = body_at (top_handle st) (st_body st) @ [unterminated_block lines idx g1 g2]"
    unfolding b by (simp add: add_block_top_handle body_at_append_at [OF v])
  from b a d assms(2) unterminated_python_document [of rest] show ?thesis by simp
qed


theorem fence_marker_in_table_row_witness:
  "scan_start [''T: t'', ''| a | b |'', ''| ``` | c''] =
     Some (Some (Header ''T'' ''t'' (Loc (Position 1 1) (Position 1 5))), [], 1,
           \<lparr>st_body = [], st_stack = [], st_diagnostics = []\<rparr>)
   \<and> table_match ([''T: t'', ''| a | b |'', ''| ``` | c''] ! 1)
   \<and> collected_rows [''T: t'', ''| a | b |'', ''| ``` | c''] 1 = [''| a | b |'', ''| ``` | c'']
   \<and> find_sub fence_marker ''| ``` | c'' 0 = Some 2
   \<and> Table (TableRow [''a'', ''b''] (Some (Loc (Position 2 1) (Position 2 10))))
         (Some (TableRow [''```''] (Some (Loc (Position 3 1) (Position 3 10)))))
         [] (Loc (Position 2 1) (Position 3 10))
        \<in> set (all_leaves (doc_body (parse_document [''T: t'', ''| a | b |'', ''| ``` | c''])))
   \<and> fence_in_table_diag 3 3
        \<in> set (diagnostics_of (parse_document [''T: t'', ''| a | b |'', ''| ``` | c'']))
   \<and> parse_document [''T: t'', ''| a | b |'', ''| ``` | c''] =
       \<lparr>doc_header = Some (Header ''T'' ''t'' (Loc (Position 1 1) (Position 1 5))),
        doc_metadata = [],
        doc_body =
          [Table (TableRow [''a'', ''b''] (Some (Loc (Position 2 1) (Position 2 10))))
             (Some (TableRow [''```''] (Some (Loc (Position 3 1) (Position 3 10)))))
             [] (Loc (Position 2 1) (Position 3 10))],
        doc_diagnostics = Some [fence_in_table_diag 3 3]\<rparr>"
proof -
  let ?L = "[''T: t'', ''| a | b |'', ''| ``` | c'']"
  let ?st0 = "\<lparr>st_body = [], st_stack = [], st_diagnostics = []\<rparr>"
  have s: "scan_start ?L =
     Some (Some (Header ''T'' ''t'' (Loc (Position 1 1) (Position 1 5))), [], 1, ?st0)"
    by code_simp
  have h0: "reached ?L 1 ?st0" by (rule reached.start [OF s])
  have h1: "1 < length ?L" by simp
  have h2: "table_match (?L ! 1)" by code_simp
  have r: "collected_rows ?L 1 = [''| a | b |'', ''| ``` | c'']" by code_simp
  have h3: "1 < length (collected_rows ?L 1)" unfolding r by simp
  have f: "find_sub fence_marker ''| ``` | c'' 0 = Some 2" by code_simp
  then have h4: "find_sub fence_marker (collected_rows ?L 1 ! 1) 0 = Some 2" unfolding r by simp
  have t: "fst (parse_table [''| a | b |'', ''| ``` | c''] [] (1 + 1)) =
      Table (TableRow [''a'', ''b''] (Some (Loc (Position 2 1) (Position 2 10))))
         (Some (TableRow [''```''] (Some (Loc (Position 3 1) (Position 3 10)))))
         [] (Loc (Position 2 1) (Position 3 10))" by code_simp
  have d: "parse_document ?L =
       \<lparr>doc_header = Some (Header ''T'' ''t'' (Loc (Position 1 1) (Position 1 5))),
        doc_metadata = [],
        doc_body =
          [Table (TableRow [''a'', ''b''] (Some (Loc (Position 2 1) (Position 2 10))))
             (Some (TableRow [''```''] (Some (Loc (Position 3 1) (Position 3 10)))))
             [] (Loc (Position 2 1) (Position 3 10))],
        doc_diagnostics = Some [fence_in_table_diag 3 3]\<rparr>" by code_simp
  note w = fence_marker_in_table_row [OF h0 h1 h2 h3 h4]
  from w have "fst (parse_table (collected_rows ?L 1) (st_diagnostics ?st0) (1 + 1))
        \<in> set (all_leaves (doc_body (parse_document ?L)))" by blast
  then have m1: "Table (TableRow [''a'', ''b''] (Some (Loc (Position 2 1) (Position 2 10))))
         (Some (TableRow [''```''] (Some (Loc (Position 3 1) (Position 3 10)))))
         [] (Loc (Position 2 1) (Position 3 10))
        \<in> set (all_leaves (doc_body (parse_document ?L)))"
    unfolding r using t by simp
  from w have "fence_in_table_diag (1 + 1 + 1) (2 + 1) \<in> set (diagnostics_of (parse_document ?L))"
    by blast
  then have m2: "fence_in_table_diag 3 3 \<in> set (diagnostics_of (parse_document ?L))"
    by (simp add: numeral_3_eq_3)
  from s h2 r f m1 m2 d show ?thesis by blast
qed

theorem unterminated_fence_block_witness:
  "scan_start [''DOC: x'', ''```python'', ''a'', ''b''] =
     Some (Some (Header ''DOC'' ''x'' (Loc (Position 1 1) (Position 1 7))), [], 1,
           \<lparr>st_body = [], st_stack = [], st_diagnostics = []\<rparr>)
   \<and> fence_match ([''DOC: x'', ''```python'', ''a'', ''b''] ! 1) = Some ([], ''python'')
   \<and> \<not> fence_closes 0 ''a'' \<and> \<not> fence_closes 0 ''b''
   \<and> doc_body (parse_document [''DOC: x'', ''```python'', ''a'', ''b'']) =
       [FencedCodeBlock (Some ''python'') 0 [''a'', ''b''] (Loc (Position 2 1) (Position 4 2))]
   \<and> diagnostics_of (parse_document [''DOC: x'', ''```python'', ''a'', ''b''])
       = [fence_unterminated_diag 4]
   \<and> parse_document [''DOC: x'', ''```python'', ''a'', ''b''] =
       \<lparr>doc_header = Some (Header ''DOC'' ''x'' (Loc (Position 1 1) (Position 1 7))),
        doc_metadata = [],
        doc_body = [FencedCodeBlock (Some ''python'') 0 [''a'', ''b'']
                      (Loc (Position 2 1) (Position 4 2))],
        doc_diagnostics = Some [fence_unterminated_diag 4]\<rparr>"
proof -
  let ?L = "[''DOC: x'', ''```python'', ''a'', ''b'']"
  let ?st0 = "\<lparr>st_body = [], st_stack = [], st_diagnostics = []\<rparr>"
  have s: "scan_start ?L =
     Some (Some (Header ''DOC'' ''x'' (Loc (Position 1 1) (Position 1 7))), [], 1, ?st0)"
    by code_simp
  have h0: "reached ?L 1 ?st0" by (rule reached.start [OF s])
  have i: "1 < length ?L" by simp
  have f: "fence_match (?L ! 1) = Some ([], ''python'')" by code_simp
  have n: "\<not> fence_closes 0 ''a''" "\<not> fence_closes 0 ''b''" by code_simp+
  then have c: "\<forall>l \<in> set (drop (1 + 1) ?L). \<not> fence_closes (length ([] :: string)) l" by simp
  from n have r: "\<forall>l \<in> set [''a'', ''b'']. \<not> fence_closes 0 l" by simp
  have u: "unterminated_block ?L 1 [] ''python'' =
      FencedCodeBlock (Some ''python'') 0 [''a'', ''b''] (Loc (Position 2 1) (Position 4 2))"
    by code_simp
  note t = unterminated_fence_block [OF h0 i f c, of "[''a'', ''b'']"]
  from t have "doc_body (parse_document ?L) =
       [FencedCodeBlock (Some ''python'') 0 [''a'', ''b''] (Loc (Position 2 1) (Position 4 2))]"
    unfolding u by (simp add: add_block_def)
  moreover from t have "diagnostics_of (parse_document ?L) = [fence_unterminated_diag 4]"
    by (simp add: eval_nat_numeral)
  moreover from t r have "parse_document ?L =
       \<lparr>doc_header = Some (Header ''DOC'' ''x'' (Loc (Position 1 1) (Position 1 7))),
        doc_metadata = [],
        doc_body = [FencedCodeBlock (Some ''python'') 0 [''a'', ''b'']
                      (Loc (Position 2 1) (Position 4 2))],
        doc_diagnostics = Some [fence_unterminated_diag 4]\<rparr>"
    by (simp add: eval_nat_numeral)
  ultimately show ?thesis using s f n by blast
qed

end
